theory Spec2Isabelle
  imports Complex_Main
begin

section \<open>Data model of \<open>plot.py\<close>\<close>

text \<open>
  Python numbers (\<open>int\<close> and \<open>float\<close> mixed freely by the source) are modelled as exact
  reals: rounding of floating point results is not part of the model. Values whose
  shape the source decides at run time (the arguments of \<open>plot_table\<close>) are \<open>pyval\<close>.
\<close>

datatype pyval = Num real | Seq "pyval list"

datatype error =
    PlotClosed
  | ZeroDivisionError
  | TypeError
  | IndexError
  | AttributeError
  | Terminator

text \<open>
  A grid line is the dictionary passed to \<open>draw_line\<close> by keyword: a key that is absent
  (or, for \<open>label\<close>, deleted by \<open>del line['label']\<close>) is \<open>None\<close>.
\<close>

record gridline =
  pos :: "real option"
  horizontal :: "bool option"
  label :: "string option"
  color :: "string option"
  label_color :: "string option"
  priority :: "int option"

text \<open>The keyword arguments of \<open>plot\<close>, stored with each table for redraws.\<close>

record plot_kwargs =
  kw_colors :: "string list"
  kw_scale_x :: real

text \<open>
  Commands are the closures the producers enqueue: the four methods a \<open>Plot\<close> queues
  itself, and any other callable (\<open>Other\<close>, whose effect is outside this model).
\<close>

datatype cmd =
    DoClear "gridline list"
  | DoZoom "real option" "real \<times> real"
  | DoPlot "pyval list" "string list" int real
  | DoClose
  | Other nat

text \<open>The calls made on the \<open>turtle\<close> module, in the order they are made.\<close>

datatype turtle_op =
    Clear
  | PenUp
  | PenDown
  | HideTurtle
  | ShowTurtle
  | Speed nat
  | Tracer "nat list"
  | Color string
  | SetPosition pyval pyval
  | Write string string "string \<times> nat"
  | ScreenSize nat nat
  | Update
  | SetWorldCoordinates "real list"
  | OnTimer nat
  | MainLoop
  | Bye

text \<open>
  The state: the attributes of the \<open>Plot\<close> instance, followed by what the source reads
  back from the \<open>turtle\<close> module (\<open>xscale\<close>, \<open>yscale\<close> of the screen) and the trace of
  calls made on it (\<open>canvas\<close>). The attribute \<open>lines\<close> does not exist before the first
  \<open>do_clear\<close>.
\<close>

record plot =
  queue :: "cmd list"
  margin :: "real list"
  plot_area :: "real \<times> real \<times> real \<times> real"
  min_size :: "real \<times> real"
  zoom_area :: "real list"
  scale :: real
  font :: "string \<times> nat"
  closed :: bool
  window_size :: "(int \<times> int) option"
  tables :: "(pyval list \<times> plot_kwargs) list"
  lines :: "gridline list option"
  xscale :: real
  yscale :: real
  canvas :: "turtle_op list"

text \<open>
  The toolkit: the capabilities of \<open>tkinter\<close> and \<open>turtle\<close> that the source calls and whose
  results it uses. \<open>measure\<close> is \<open>Font.measure\<close>, \<open>linespace\<close> is
  \<open>Font.metrics('linespace')\<close>, \<open>window\<close> is \<open>(turtle.window_width(),
  turtle.window_height())\<close>, and \<open>worldscale\<close> gives the screen's \<open>(xscale, yscale)\<close>
  after \<open>turtle.setworldcoordinates\<close> was called with the given four coordinates.
\<close>

record toolkit =
  measure :: "string \<Rightarrow> int"
  linespace :: int
  window :: "int \<times> int"
  worldscale :: "real list \<Rightarrow> real \<times> real"

type_synonym outcome = "error option \<times> plot"

definition andthen :: "outcome \<Rightarrow> (plot \<Rightarrow> outcome) \<Rightarrow> outcome" where
  "andthen r f = (case r of (None, s) \<Rightarrow> f s | (Some e, s) \<Rightarrow> (Some e, s))"

definition emit :: "turtle_op list \<Rightarrow> plot \<Rightarrow> plot" where
  "emit ops s = s\<lparr>canvas := canvas s @ ops\<rparr>"

definition idx2 :: "'a \<times> 'a \<Rightarrow> nat \<Rightarrow> 'a" where
  "idx2 p i = (if i = 0 then fst p else snd p)"

fun idx4 :: "'a \<times> 'a \<times> 'a \<times> 'a \<Rightarrow> nat \<Rightarrow> 'a" where
  "idx4 (a, b, c, d) i = (if i = 0 then a else if i = 1 then b else if i = 2 then c else d)"

fun list4 :: "'a \<times> 'a \<times> 'a \<times> 'a \<Rightarrow> 'a list" where
  "list4 (a, b, c, d) = [a, b, c, d]"

section \<open>Construction\<close>

text \<open>
  \<open>Plot.__init__\<close>. The screen scales of a new \<open>turtle\<close> screen are those the toolkit
  starts with; they are parameters here. The call \<open>turtle.setup()\<close> opens the window and
  draws nothing: it leaves no entry in the trace, which starts empty.
\<close>

definition init :: "real \<Rightarrow> real \<Rightarrow> plot" where
  "init xs ys =
     \<lparr>queue = [], margin = [0, 0, 0, 0], plot_area = (0, 0, 1023, 1023),
      min_size = (2, 8), zoom_area = list4 (0, 0, 1023, 1023), scale = 1,
      font = (''Ariel'', 8), closed = False, window_size = None, tables = [],
      lines = None, xscale = xs, yscale = ys, canvas = []\<rparr>"

section \<open>Coordinate mapper\<close>

text \<open>\<open>Plot.setworldcoordinates\<close>.\<close>

definition setworldcoordinates :: "toolkit \<Rightarrow> plot \<Rightarrow> plot" where
  "setworldcoordinates tk s =
     (let coords = map (\<lambda>(a, b). a + b * scale s) (zip (zoom_area s) (margin s));
          s1 = emit [ScreenSize 1 1, Update, SetWorldCoordinates coords]
                 (s\<lparr>window_size := Some (window tk)\<rparr>)
      in s1\<lparr>xscale := fst (worldscale tk coords), yscale := snd (worldscale tk coords)\<rparr>)"

text \<open>
  The body of the loop \<open>for i in range(2)\<close> of \<open>Plot.do_zoom\<close>. The two divisions raise
  \<open>ZeroDivisionError\<close> on a zero divisor; \<open>zoom_area\<close> is a list of four numbers
  throughout (made so by \<open>__init__\<close>, kept so by every update).
\<close>

definition zoom_axis :: "real \<Rightarrow> real \<times> real \<Rightarrow> nat \<Rightarrow> plot \<Rightarrow> outcome" where
  "zoom_axis level direction i s =
     (let l = zoom_area s ! i;
          h = zoom_area s ! (i + 2);
          d = idx2 direction i / 2 + 0.5;
          min_l = idx4 (plot_area s) i;
          max_h = idx4 (plot_area s) (i + 2);
          max_size = max_h - min_l;
          size = h - l
      in if level = 0 then (Some ZeroDivisionError, s)
         else
           let new_size = size / level;
               new_size = (if new_size < idx2 (min_size s) i then idx2 (min_size s) i
                           else new_size);
               new_size = (if new_size > max_size then max_size else new_size);
               new_l = max min_l (l + (size - new_size) * d);
               new_h = new_l + new_size;
               new_l = (if new_h > max_h then max_h - new_size else new_l);
               new_h = (if new_h > max_h then max_h else new_h);
               s1 = s\<lparr>zoom_area := (zoom_area s)[i := new_l, i + 2 := new_h]\<rparr>
           in if max_size = 0 then (Some ZeroDivisionError, s1)
              else (None, s1\<lparr>scale := new_size / max_size\<rparr>))"

text \<open>\<open>Plot.do_zoom\<close>.\<close>

definition do_zoom :: "toolkit \<Rightarrow> real option \<Rightarrow> real \<times> real \<Rightarrow> plot \<Rightarrow> outcome" where
  "do_zoom tk level direction s =
     (let s0 = s\<lparr>scale := 1\<rparr> in
      case level of
        None \<Rightarrow> (None, setworldcoordinates tk (s0\<lparr>zoom_area := list4 (plot_area s0)\<rparr>))
      | Some lv \<Rightarrow>
          andthen (andthen (zoom_axis lv direction 0 s0) (zoom_axis lv direction 1))
            (\<lambda>s2. (None, setworldcoordinates tk s2)))"

section \<open>Properties of the coordinate mapper\<close>






lemma setworldcoordinates_keeps [simp]:
  "zoom_area (setworldcoordinates tk s) = zoom_area s"
  "scale (setworldcoordinates tk s) = scale s"
  "plot_area (setworldcoordinates tk s) = plot_area s"
  "margin (setworldcoordinates tk s) = margin s"
  "min_size (setworldcoordinates tk s) = min_size s"
  by (simp_all add: setworldcoordinates_def emit_def Let_def)

text \<open>
  Claim C8. For every prior state, \<open>do_zoom\<close> with \<open>level = None\<close> returns normally, sets
  the zoom rectangle to the four bounds of the plot area and the scale to 1.
\<close>

theorem do_zoom_reset:
  "fst (do_zoom tk None direction s) = None \<and>
   zoom_area (snd (do_zoom tk None direction s)) = list4 (plot_area s) \<and>
   scale (snd (do_zoom tk None direction s)) = 1"
  by (simp add: do_zoom_def Let_def)






text \<open>A toolkit and a zoomed state used to instantiate the theorems below.\<close>

definition demo_toolkit :: toolkit where
  "demo_toolkit =
     \<lparr>measure = (\<lambda>t. 6 * int (length t)), linespace = 12, window = (720, 720),
      worldscale = (\<lambda>c. (700 / (c ! 2 - c ! 0), 700 / (c ! 3 - c ! 1)))\<rparr>"



section \<open>Label layout engine\<close>

text \<open>
  Reading a grid line: Python truthiness of \<open>line.get('label')\<close>, the index
  \<open>line.get('horizontal', 0)\<close> and \<open>line.get('priority', 0)\<close>.
\<close>

definition truthy :: "string option \<Rightarrow> bool" where
  "truthy l = (case l of None \<Rightarrow> False | Some t \<Rightarrow> t \<noteq> [])"

definition hbool :: "gridline \<Rightarrow> bool" where
  "hbool line = (case horizontal line of None \<Rightarrow> False | Some b \<Rightarrow> b)"

definition hidx :: "gridline \<Rightarrow> nat" where
  "hidx line = (if hbool line then 1 else 0)"

definition prio :: "gridline \<Rightarrow> int" where
  "prio line = (case priority line of None \<Rightarrow> 0 | Some p \<Rightarrow> p)"

text \<open>\<open>label.split('\n')\<close> and \<open>label.count('\n')\<close>.\<close>

fun split_nl :: "string \<Rightarrow> string list" where
  "split_nl [] = [[]]"
| "split_nl (c # cs) =
     (if c = CHR 0x0A then [] # split_nl cs
      else (case split_nl cs of [] \<Rightarrow> [[c]] | w # ws \<Rightarrow> (c # w) # ws))"

definition count_nl :: "string \<Rightarrow> nat" where
  "count_nl t = length (filter (\<lambda>c. c = CHR 0x0A) t)"

text \<open>\<open>Plot.label_size\<close>: the two divisions raise on a zero screen scale.\<close>

definition label_size :: "toolkit \<Rightarrow> plot \<Rightarrow> string \<Rightarrow> error + (real \<times> real)" where
  "label_size tk s lab =
     (let width = fold (\<lambda>line w. max w (measure tk line)) (split_nl lab) 0;
          lines = length (split_nl lab)
      in if xscale s = 0 \<or> yscale s = 0 then Inl ZeroDivisionError
         else Inr (real_of_int width / xscale s,
                   real_of_int (linespace tk * int lines) / yscale s))"

text \<open>\<open>Plot.label_pos\<close>: only the chosen branch of each conditional expression is evaluated.\<close>

definition label_pos :: "toolkit \<Rightarrow> plot \<Rightarrow> real \<Rightarrow> string \<Rightarrow> bool \<Rightarrow> error + (real \<times> real)" where
  "label_pos tk s p lab hz =
     (if yscale s = 0 then Inl ZeroDivisionError
      else
        let line_height = real_of_int (linespace tk) / yscale s;
            height = real (count_nl lab + 1) * line_height
        in if hz \<and> xscale s = 0 then Inl ZeroDivisionError
           else Inr (if hz then - 8 / xscale s else p,
                     if hz then p - 0.5 * height else - height - 6 / yscale s))"

text \<open>\<open>Plot.draw_line\<close>, called with the keys of the line as keyword arguments.\<close>

definition draw_line :: "toolkit \<Rightarrow> gridline \<Rightarrow> plot \<Rightarrow> outcome" where
  "draw_line tk line s =
     (case pos line of
        None \<Rightarrow> (None, s)
      | Some p \<Rightarrow>
          let hz = hbool line; h = hidx line in
          if p < zoom_area s ! (0 + h) \<or> p > zoom_area s ! (2 + h) then (None, s)
          else
            andthen
              (let s1 = emit [PenUp] s in
               if truthy (label line) then
                 let lab = the (label line);
                     s2 = emit [Color (case label_color line of None \<Rightarrow> ''gray35'' | Some c \<Rightarrow> c)] s1
                 in case label_pos tk s2 p lab hz of
                      Inl e \<Rightarrow> (Some e, s2)
                    | Inr (x, y) \<Rightarrow>
                        let s3 = emit [SetPosition (Num x) (Num y),
                                       Write lab (if hz then ''right'' else ''center'') (font s)] s2
                        in if (if hz then xscale s = 0 else yscale s = 0)
                           then (Some ZeroDivisionError, s3)
                           else (None, emit [SetPosition (Num (if hz then - 4 / xscale s else p))
                                               (Num (if hz then p else - 4 / yscale s)),
                                             PenDown] s3)
               else (None, s1))
              (\<lambda>s4. if (if hz then xscale s = 0 else yscale s = 0)
                    then (Some ZeroDivisionError, s4)
                    else (None, emit [SetPosition (Num (if hz then 1 / xscale s else p))
                                        (Num (if hz then p else 1 / yscale s)),
                                      Color (case color line of None \<Rightarrow> ''gray90'' | Some c \<Rightarrow> c),
                                      PenDown,
                                      SetPosition (Num (if hz then idx4 (plot_area s) 2 else p))
                                        (Num (if hz then p else idx4 (plot_area s) 3)),
                                      PenUp] s4)))"

text \<open>
  The first pass over the sorted lines (the loop that grows \<open>margin\<close>). The body of
  its inner loop \<open>for i, p in enumerate(label_pos)\<close> is \<open>margin_axis\<close>. The pass returns
  the lines (a label outside the zoom rectangle is deleted) and the margin.
\<close>

definition margin_axis ::
  "real \<times> real \<Rightarrow> real \<times> real \<Rightarrow> real \<times> real \<times> real \<times> real \<Rightarrow> real \<times> real \<Rightarrow> real \<times> real \<Rightarrow>
   nat \<Rightarrow> real list \<Rightarrow> real list" where
  "margin_axis margin_pad margin_scale area lpos sz i m =
     (let p = idx2 lpos i;
          pl = (p - idx2 margin_pad i) * idx2 margin_scale i;
          m1 = (if pl < m ! i then m[i := pl] else m);
          ph = (p + idx2 sz i - idx4 area (i + 2) + idx2 margin_pad i) * idx2 margin_scale i
      in if ph > m1 ! (i + 2) then m1[i + 2 := ph] else m1)"

fun margin_pass ::
  "toolkit \<Rightarrow> plot \<Rightarrow> real \<times> real \<Rightarrow> real \<times> real \<Rightarrow> gridline list \<Rightarrow> real list \<Rightarrow>
   error + (gridline list \<times> real list)" where
  "margin_pass tk s margin_pad margin_scale [] m = Inr ([], m)"
| "margin_pass tk s margin_pad margin_scale (line # rest) m =
     (if \<not> truthy (label line) then
        (case margin_pass tk s margin_pad margin_scale rest m of
           Inl e \<Rightarrow> Inl e
         | Inr (ls, m') \<Rightarrow> Inr (line # ls, m'))
      else
        case pos line of
          None \<Rightarrow> Inl TypeError
        | Some p \<Rightarrow>
            if p < zoom_area s ! (0 + hidx line) \<or> p > zoom_area s ! (2 + hidx line) then
              (case margin_pass tk s margin_pad margin_scale rest m of
                 Inl e \<Rightarrow> Inl e
               | Inr (ls, m') \<Rightarrow> Inr (line\<lparr>label := None\<rparr> # ls, m'))
            else
              case label_size tk s (the (label line)) of
                Inl e \<Rightarrow> Inl e
              | Inr sz \<Rightarrow>
                  (case label_pos tk s p (the (label line)) (hbool line) of
                     Inl e \<Rightarrow> Inl e
                   | Inr lp \<Rightarrow>
                       let lpos = (fst lp - fst sz / (if hbool line then 1 else 2), snd lp);
                           m1 = fold (margin_axis margin_pad margin_scale (plot_area s) lpos sz)
                                  [0..<2] m
                       in case margin_pass tk s margin_pad margin_scale rest m1 of
                            Inl e \<Rightarrow> Inl e
                          | Inr (ls, m') \<Rightarrow> Inr (line # ls, m')))"

text \<open>
  The loop that stores the margin: \<open>self.margin\<close> is updated in place where it differs,
  and \<open>resize\<close> records whether it did.
\<close>

definition store_margin :: "real list \<Rightarrow> real list \<Rightarrow> real list \<times> bool" where
  "store_margin m sm =
     fold (\<lambda>i (sm', resize). if m ! i \<noteq> sm' ! i then (sm'[i := m ! i], True) else (sm', resize))
       [0..<length m] (sm, False)"

text \<open>
  The second pass (overlap resolution). \<open>last[h]\<close> refers to a dictionary of the list
  \<open>lines\<close>; the reference is the index of that dictionary, so \<open>del last[h]['label']\<close>
  updates the list at that index. \<open>last_pos[h]\<close> starts at \<open>-math.inf\<close>.
\<close>

datatype bound = NegInf | Fin real

fun below :: "real \<Rightarrow> bound \<Rightarrow> bool" where
  "below x NegInf = False"
| "below x (Fin y) = (x < y)"

definition set2 :: "'a \<times> 'a \<Rightarrow> nat \<Rightarrow> 'a \<Rightarrow> 'a \<times> 'a" where
  "set2 p i v = (if i = 0 then (v, snd p) else (fst p, v))"

type_synonym overlap_state = "gridline list \<times> (nat option \<times> nat option) \<times> (bound \<times> bound)"

definition overlap_step :: "toolkit \<Rightarrow> plot \<Rightarrow> nat \<Rightarrow> overlap_state \<Rightarrow> error + overlap_state" where
  "overlap_step tk s i st =
     (case st of (ls, lastl, lastp) \<Rightarrow>
        let line = ls ! i in
        if \<not> truthy (label line) then Inr st
        else
          let h = hidx line in
          case pos line of
            None \<Rightarrow> Inl TypeError
          | Some p \<Rightarrow>
              (case label_size tk s (the (label line)) of
                 Inl e \<Rightarrow> Inl e
               | Inr sz \<Rightarrow>
                   let pad = idx2 sz h * 0.6 in
                   if below (p - pad) (idx2 lastp h) then
                     (case idx2 lastl h of
                        None \<Rightarrow> Inl AttributeError
                      | Some j \<Rightarrow>
                          if prio line \<le> prio (ls ! j) then
                            Inr (ls[i := line\<lparr>label := None\<rparr>], lastl, lastp)
                          else
                            Inr (ls[j := (ls ! j)\<lparr>label := None\<rparr>],
                                 set2 lastl h (Some i), set2 lastp h (Fin (p + pad))))
                   else Inr (ls, set2 lastl h (Some i), set2 lastp h (Fin (p + pad)))))"

fun overlap_loop :: "toolkit \<Rightarrow> plot \<Rightarrow> nat list \<Rightarrow> overlap_state \<Rightarrow> error + overlap_state" where
  "overlap_loop tk s [] st = Inr st"
| "overlap_loop tk s (i # is) st =
     (case overlap_step tk s i st of Inl e \<Rightarrow> Inl e | Inr st' \<Rightarrow> overlap_loop tk s is st')"

definition resolve_overlaps :: "toolkit \<Rightarrow> plot \<Rightarrow> gridline list \<Rightarrow> error + gridline list" where
  "resolve_overlaps tk s ls =
     (case overlap_loop tk s [0..<length ls] (ls, (None, None), (NegInf, NegInf)) of
        Inl e \<Rightarrow> Inl e
      | Inr (ls', _, _) \<Rightarrow> Inr ls')"

text \<open>The last loop of \<open>draw_grid\<close>: every line is drawn until one raises.\<close>

fun draw_lines :: "toolkit \<Rightarrow> gridline list \<Rightarrow> plot \<Rightarrow> outcome" where
  "draw_lines tk [] s = (None, s)"
| "draw_lines tk (line # rest) s = andthen (draw_line tk line s) (draw_lines tk rest)"

text \<open>
  \<open>Plot.draw_grid\<close>. Sorting compares the positions, which raises \<open>TypeError\<close> when a
  position is \<open>None\<close> and there is more than one line; \<open>sort\<close> is stable, as \<open>sort_key\<close> is.
\<close>

definition grid_frame :: "turtle_op list" where
  "grid_frame =
     [Tracer [0], HideTurtle, Speed 0, PenUp, Color ''gray75'',
      SetPosition (Num 0) (Num 0), PenDown,
      SetPosition (Num 1023) (Num 0), SetPosition (Num 1023) (Num 1023),
      SetPosition (Num 0) (Num 1023), SetPosition (Num 0) (Num 0),
      PenUp, Color ''gray90'']"

text \<open>
  Lines 242 to 283 of \<open>draw_grid\<close>: copy and sort the lines, compute the margin, store it
  and reset the world coordinates when it changed. Nothing of the state changes before
  the margin is stored, so an exception leaves the state as it was.
\<close>

definition grid_layout :: "toolkit \<Rightarrow> plot \<Rightarrow> error + (gridline list \<times> plot)" where
  "grid_layout tk s1 =
     (case lines s1 of
        None \<Rightarrow> Inl AttributeError
      | Some ls0 \<Rightarrow>
          if 2 \<le> length ls0 \<and> list_ex (\<lambda>l. pos l = None) ls0 then Inl TypeError
          else
            let ls = sort_key (\<lambda>l. the (pos l)) ls0 in
            if xscale s1 = 0 \<or> yscale s1 = 0 \<or> scale s1 = 0 then Inl ZeroDivisionError
            else
              let margin_pad = (4 / xscale s1, 4 / yscale s1);
                  margin_scale = (1 / scale s1, 1 / scale s1);
                  m0 = [- 1 * fst margin_pad * fst margin_scale,
                        - 1 * snd margin_pad * snd margin_scale,
                        1 * fst margin_pad * fst margin_scale,
                        1 * snd margin_pad * snd margin_scale]
              in case margin_pass tk s1 margin_pad margin_scale ls m0 of
                   Inl e \<Rightarrow> Inl e
                 | Inr (ls1, m) \<Rightarrow>
                     let stored = store_margin m (margin s1);
                         s2 = s1\<lparr>margin := fst stored\<rparr>
                     in Inr (ls1, if snd stored then setworldcoordinates tk s2 else s2))"

definition draw_grid :: "toolkit \<Rightarrow> plot \<Rightarrow> outcome" where
  "draw_grid tk s =
     (let s1 = emit grid_frame s in
      case grid_layout tk s1 of
        Inl e \<Rightarrow> (Some e, s1)
      | Inr (ls1, s3) \<Rightarrow>
          (case resolve_overlaps tk s3 ls1 of
             Inl e \<Rightarrow> (Some e, s3)
           | Inr ls2 \<Rightarrow> andthen (draw_lines tk ls2 s3) (\<lambda>s4. (None, emit [Update] s4))))"

text \<open>\<open>Plot.do_clear\<close>.\<close>

definition do_clear :: "toolkit \<Rightarrow> gridline list \<Rightarrow> plot \<Rightarrow> outcome" where
  "do_clear tk ls s = draw_grid tk ((emit [Clear] s)\<lparr>tables := [], lines := Some ls\<rparr>)"


text \<open>Observations of a trace: the label texts written, in order.\<close>

definition written :: "turtle_op list \<Rightarrow> string list" where
  "written ops = concat (map (\<lambda>op. case op of Write t _ _ \<Rightarrow> [t] | _ \<Rightarrow> []) ops)"


section \<open>Properties of the label layout engine\<close>

lemma store_margin_fold:
  "k \<le> length m \<Longrightarrow> length sm = length m \<Longrightarrow>
   fold (\<lambda>i (sm', resize). if m ! i \<noteq> sm' ! i then (sm'[i := m ! i], True) else (sm', resize))
     [0..<k] (sm, False) = (take k m @ drop k sm, take k m \<noteq> take k sm)"
proof (induction k)
  case 0
  then show ?case by simp
next
  case (Suc k)
  then have k: "k < length m" "k < length sm" by simp_all
  have t1: "take (Suc k) m = take k m @ [m ! k]"
    using k by (simp add: take_Suc_conv_app_nth)
  have t2: "take (Suc k) sm = take k sm @ [sm ! k]"
    using k by (simp add: take_Suc_conv_app_nth)
  have d: "drop k sm = sm ! k # drop (Suc k) sm"
    using k by (simp add: Cons_nth_drop_Suc)
  define A where "A = take k m @ drop k sm"
  have n: "A ! k = sm ! k"
    using k by (simp add: A_def nth_append)
  have u: "A[k := m ! k] = take (Suc k) m @ drop (Suc k) sm"
    using k by (simp add: A_def t1 d list_update_append)
  have e: "m ! k = sm ! k \<Longrightarrow> A = take (Suc k) m @ drop (Suc k) sm"
    using k by (simp add: A_def t1 d)
  have IH: "fold (\<lambda>i (sm', resize). if m ! i \<noteq> sm' ! i then (sm'[i := m ! i], True) else (sm', resize))
     [0..<k] (sm, False) = (A, take k m \<noteq> take k sm)"
    using Suc.IH Suc.prems by (simp add: A_def)
  show ?case
  proof (cases "m ! k = sm ! k")
    case True
    then show ?thesis
      using IH n e by (simp add: t1 t2)
  next
    case False
    then show ?thesis
      using IH n u by (simp add: t1 t2)
  qed
qed

lemma store_margin_eq:
  "length sm = length m \<Longrightarrow> store_margin m sm = (m, m \<noteq> sm)"
  using store_margin_fold[of "length m" m sm] by (simp add: store_margin_def)


lemma emit_fields [simp]:
  "margin (emit ops s) = margin s" "zoom_area (emit ops s) = zoom_area s"
  "scale (emit ops s) = scale s" "plot_area (emit ops s) = plot_area s"
  "xscale (emit ops s) = xscale s" "yscale (emit ops s) = yscale s"
  "lines (emit ops s) = lines s" "tables (emit ops s) = tables s"
  "font (emit ops s) = font s" "closed (emit ops s) = closed s"
  "queue (emit ops s) = queue s" "min_size (emit ops s) = min_size s"
  "window_size (emit ops s) = window_size s"
  "canvas (emit ops s) = canvas s @ ops"
  by (simp_all add: emit_def)

lemma setworldcoordinates_more [simp]:
  "lines (setworldcoordinates tk s) = lines s"
  "tables (setworldcoordinates tk s) = tables s"
  "closed (setworldcoordinates tk s) = closed s"
  "queue (setworldcoordinates tk s) = queue s"
  "font (setworldcoordinates tk s) = font s"
  by (simp_all add: setworldcoordinates_def emit_def Let_def)

definition pad_margin :: "plot \<Rightarrow> real list" where
  "pad_margin s = [- (4 / xscale s / scale s), - (4 / yscale s / scale s),
                   4 / xscale s / scale s, 4 / yscale s / scale s]"

lemma grid_layout_no_lines:
  assumes "xscale s \<noteq> 0" "yscale s \<noteq> 0" "scale s \<noteq> 0" "length (margin s) = 4"
    and "lines s = Some []"
  shows "\<exists>s3. grid_layout tk s = Inr ([], s3) \<and> margin s3 = pad_margin s \<and>
           lines s3 = Some [] \<and> tables s3 = tables s \<and> plot_area s3 = plot_area s"
  using assms
  by (simp add: grid_layout_def Let_def store_margin_eq pad_margin_def)

lemma draw_grid_no_lines:
  assumes "xscale s \<noteq> 0" "yscale s \<noteq> 0" "scale s \<noteq> 0" "length (margin s) = 4"
    and "lines s = Some []"
  shows "fst (draw_grid tk s) = None \<and> margin (snd (draw_grid tk s)) = pad_margin s \<and>
         lines (snd (draw_grid tk s)) = Some [] \<and> tables (snd (draw_grid tk s)) = tables s \<and>
         plot_area (snd (draw_grid tk s)) = plot_area s"
proof -
  obtain s3 where l: "grid_layout tk (emit grid_frame s) = Inr ([], s3)"
    and m: "margin s3 = pad_margin (emit grid_frame s)" "lines s3 = Some []"
      "tables s3 = tables (emit grid_frame s)" "plot_area s3 = plot_area (emit grid_frame s)"
    using grid_layout_no_lines[of "emit grid_frame s" tk] assms by auto
  have "draw_grid tk s = (None, emit [Update] s3)"
    by (simp add: draw_grid_def Let_def l resolve_overlaps_def andthen_def)
  then show ?thesis using m by (simp add: pad_margin_def)
qed

text \<open>
  Claim C4, as amended. \<open>do_clear\<close> with no lines followed by \<open>do_zoom\<close> with no level
  returns normally with the zoom rectangle equal to the plot area, scale 1, no stored
  tables and no lines; the margin it leaves is the padding margin
  \<open>[-4/xscale/scale, -4/yscale/scale, 4/xscale/scale, 4/yscale/scale]\<close> (screen scales and
  scale as they were when \<open>do_clear\<close> ran), which is not \<open>[0, 0, 0, 0]\<close>.
\<close>

theorem clear_then_zoom:
  assumes "xscale s \<noteq> 0" and "yscale s \<noteq> 0" and "scale s \<noteq> 0"
    and "length (margin s) = 4"
  shows "fst (andthen (do_clear tk [] s) (do_zoom tk None d)) = None \<and>
         zoom_area (snd (andthen (do_clear tk [] s) (do_zoom tk None d))) = list4 (plot_area s) \<and>
         scale (snd (andthen (do_clear tk [] s) (do_zoom tk None d))) = 1 \<and>
         tables (snd (andthen (do_clear tk [] s) (do_zoom tk None d))) = [] \<and>
         lines (snd (andthen (do_clear tk [] s) (do_zoom tk None d))) = Some [] \<and>
         margin (snd (andthen (do_clear tk [] s) (do_zoom tk None d))) = pad_margin s \<and>
         margin (snd (andthen (do_clear tk [] s) (do_zoom tk None d))) \<noteq> [0, 0, 0, 0]"
proof -
  define s0 where "s0 = (emit [Clear] s)\<lparr>tables := [], lines := Some []\<rparr>"
  have g: "fst (draw_grid tk s0) = None" "margin (snd (draw_grid tk s0)) = pad_margin s0"
    "lines (snd (draw_grid tk s0)) = Some []" "tables (snd (draw_grid tk s0)) = tables s0"
    "plot_area (snd (draw_grid tk s0)) = plot_area s0"
    using draw_grid_no_lines[of s0 tk] assms by (simp_all add: s0_def)
  define s1 where "s1 = snd (do_clear tk [] s)"
  have c: "do_clear tk [] s = (None, s1)"
    using g(1) by (simp add: s1_def do_clear_def s0_def[symmetric] prod_eq_iff)
  have s1: "margin s1 = pad_margin s" "lines s1 = Some []" "tables s1 = []"
      "plot_area s1 = plot_area s"
    using g by (simp_all add: s1_def do_clear_def s0_def[symmetric])
      (simp_all add: s0_def pad_margin_def)
  have r: "andthen (do_clear tk [] s) (do_zoom tk None d) = do_zoom tk None d s1"
    by (simp add: c andthen_def)
  have nz: "pad_margin s \<noteq> [0, 0, 0, 0]"
    using assms by (simp add: pad_margin_def)
  show ?thesis
    unfolding r using s1 nz by (simp add: do_zoom_def Let_def)
qed


text \<open>
  Observations of a trace: the segments drawn. A pen is (down, colour, position); a
  \<open>SetPosition\<close> with the pen down draws a segment from the position to the target.
\<close>

type_synonym pen = "bool \<times> string \<times> (pyval \<times> pyval) option"

type_synonym segment = "string \<times> (pyval \<times> pyval) \<times> (pyval \<times> pyval)"

fun pen_step :: "pen \<Rightarrow> turtle_op \<Rightarrow> pen" where
  "pen_step (d, c, q) PenUp = (False, c, q)"
| "pen_step (d, c, q) PenDown = (True, c, q)"
| "pen_step (d, c, q) (Color c') = (d, c', q)"
| "pen_step (d, c, q) (SetPosition x y) = (d, c, Some (x, y))"
| "pen_step (d, c, q) _ = (d, c, q)"

fun drawn :: "pen \<Rightarrow> turtle_op \<Rightarrow> segment list" where
  "drawn (d, c, Some f) (SetPosition x y) = (if d then [(c, f, (x, y))] else [])"
| "drawn _ _ = []"

fun segments :: "pen \<Rightarrow> turtle_op list \<Rightarrow> segment list" where
  "segments pn [] = []"
| "segments pn (x # xs) = drawn pn x @ segments (pen_step pn x) xs"

text \<open>The stroke of a grid line: from the axis to the far edge of the plot area.\<close>

definition stroke_ops :: "plot \<Rightarrow> gridline \<Rightarrow> turtle_op list" where
  "stroke_ops s line =
     (let p = the (pos line); hz = hbool line in
      [SetPosition (Num (if hz then 1 / xscale s else p)) (Num (if hz then p else 1 / yscale s)),
       Color (case color line of None \<Rightarrow> ''gray90'' | Some c \<Rightarrow> c),
       PenDown,
       SetPosition (Num (if hz then idx4 (plot_area s) 2 else p))
         (Num (if hz then p else idx4 (plot_area s) 3)),
       PenUp])"

definition stroke :: "plot \<Rightarrow> gridline \<Rightarrow> segment" where
  "stroke s line =
     (let p = the (pos line); hz = hbool line in
      (case color line of None \<Rightarrow> ''gray90'' | Some c \<Rightarrow> c,
       (Num (if hz then 1 / xscale s else p), Num (if hz then p else 1 / yscale s)),
       (Num (if hz then idx4 (plot_area s) 2 else p), Num (if hz then p else idx4 (plot_area s) 3))))"

definition inside :: "plot \<Rightarrow> gridline \<Rightarrow> bool" where
  "inside s line =
     (case pos line of
        None \<Rightarrow> False
      | Some p \<Rightarrow> zoom_area s ! (0 + hidx line) \<le> p \<and> p \<le> zoom_area s ! (2 + hidx line))"


lemma segments_append:
  "segments pn (xs @ ys) = segments pn xs @ segments (foldl pen_step pn xs) ys"
  by (induction xs arbitrary: pn) simp_all

lemma written_append [simp]: "written (xs @ ys) = written xs @ written ys"
  by (simp add: written_def)



lemma written_stroke_ops [simp]: "written (stroke_ops s line) = []"
  by (simp add: stroke_ops_def written_def Let_def)

lemma emit_emit [simp]: "emit b (emit a s) = emit (a @ b) s"
  by (simp add: emit_def)

lemma label_pos_emit [simp]: "label_pos tk (emit ops s) = label_pos tk s"
  by (auto simp: label_pos_def fun_eq_iff Let_def)

lemma label_size_emit [simp]: "label_size tk (emit ops s) = label_size tk s"
  by (auto simp: label_size_def fun_eq_iff Let_def)



lemma margin_pass_labelled_inside:
  "margin_pass tk s mp ms ls m = Inr (ls1, m') \<Longrightarrow> l \<in> set ls1 \<Longrightarrow> truthy (label l) \<Longrightarrow>
   inside s l"
proof (induction ls arbitrary: m ls1 m')
  case Nil
  then show ?case by simp
next
  case (Cons a ls)
  show ?case
  proof (cases "truthy (label a)")
    case False
    then show ?thesis
      using Cons.prems Cons.IH
      by (auto split: sum.splits prod.splits)
  next
    case True
    then obtain p where p: "pos a = Some p"
      using Cons.prems(1) by (cases "pos a") auto
    show ?thesis
    proof (cases "p < zoom_area s ! (0 + hidx a) \<or> p > zoom_area s ! (2 + hidx a)")
      case out: True
      then show ?thesis
        using Cons.prems Cons.IH True p
        by (auto simp: truthy_def split: sum.splits prod.splits)
    next
      case ins: False
      then have "inside s a" using p by (auto simp: inside_def)
      then show ?thesis
        using Cons.prems Cons.IH True p ins
        by (auto simp: Let_def split: sum.splits prod.splits)
    qed
  qed
qed




lemma idx2_set2 [simp]: "idx2 (set2 p i v) i = v"
  by (simp add: idx2_def set2_def)

lemma idx2_same [simp]: "idx2 (x, x) i = x"
  by (simp add: idx2_def)



lemma inside_emit [simp]: "inside (emit ops s) l = inside s l"
  by (simp add: inside_def split: option.splits)

lemma stroke_ops_emit [simp]: "stroke_ops (emit ops s) l = stroke_ops s l"
  by (simp add: stroke_ops_def Let_def cong del: if_weak_cong)

lemma unlabel_axis [simp]:
  "hbool (l\<lparr>label := None\<rparr>) = hbool l" "hidx (l\<lparr>label := None\<rparr>) = hidx l"
  "prio (l\<lparr>label := None\<rparr>) = prio l"
  by (simp_all add: hidx_def hbool_def prio_def)

lemma unlabel_simps [simp]:
  "inside s (l\<lparr>label := None\<rparr>) = inside s l"
  "stroke_ops s (l\<lparr>label := None\<rparr>) = stroke_ops s l"
  "stroke s (l\<lparr>label := None\<rparr>) = stroke s l"
  "\<not> truthy (label (l\<lparr>label := None\<rparr>))"
  by (simp_all add: inside_def stroke_ops_def stroke_def truthy_def split: option.splits)

lemma written_grid_frame [simp]: "written grid_frame = []"
  by (simp add: grid_frame_def written_def)





definition vline :: "real \<Rightarrow> string \<Rightarrow> gridline" where
  "vline p t = \<lparr>pos = Some p, horizontal = None, label = Some t, color = None,
                label_color = None, priority = None\<rparr>"

definition with_lines :: "gridline list \<Rightarrow> plot" where
  "with_lines ls = (init 1 1)\<lparr>lines := Some ls\<rparr>"












text \<open>The amended claim C4 at a new instance with screen scales 1.\<close>

theorem clear_then_zoom_witness:
  "fst (andthen (do_clear demo_toolkit [] (init 1 1)) (do_zoom demo_toolkit None (0, 0))) = None \<and>
   zoom_area (snd (andthen (do_clear demo_toolkit [] (init 1 1)) (do_zoom demo_toolkit None (0, 0))))
     = [0, 0, 1023, 1023] \<and>
   scale (snd (andthen (do_clear demo_toolkit [] (init 1 1)) (do_zoom demo_toolkit None (0, 0)))) = 1 \<and>
   margin (snd (andthen (do_clear demo_toolkit [] (init 1 1)) (do_zoom demo_toolkit None (0, 0))))
     = [- 4, - 4, 4, 4]"
  using clear_then_zoom[of "init 1 1" demo_toolkit "(0, 0)"]
  by (simp add: init_def pad_margin_def)

text \<open>
  Claim C4 as stated fails: after \<open>do_clear\<close> with no lines and \<open>do_zoom\<close> on a new instance
  the margin is \<open>[-4, -4, 4, 4]\<close>, not the \<open>[0, 0, 0, 0]\<close> of the new instance.
\<close>

theorem clear_then_zoom_counterexample:
  "margin (init 1 1) = [0, 0, 0, 0] \<and>
   margin (snd (andthen (do_clear demo_toolkit [] (init 1 1)) (do_zoom demo_toolkit None (0, 0))))
     = [- 4, - 4, 4, 4] \<and>
   margin (snd (andthen (do_clear demo_toolkit [] (init 1 1)) (do_zoom demo_toolkit None (0, 0))))
     \<noteq> margin (init 1 1)"
  by code_simp


section \<open>Plot drawer\<close>

text \<open>
  The inner loop of \<open>plot_table\<close> over the samples of one curve, from index \<open>x\<close>.
  \<open>x and x % draw_speed == 0\<close> evaluates the modulus only when \<open>x\<close> is not 0, and the
  modulus raises on a zero \<open>draw_speed\<close>.
\<close>

fun draw_points :: "int \<Rightarrow> real \<Rightarrow> nat \<Rightarrow> pyval list \<Rightarrow> plot \<Rightarrow> outcome" where
  "draw_points draw_speed scale_x x [] s = (None, s)"
| "draw_points draw_speed scale_x x (y # ys) s =
     (if x \<noteq> 0 \<and> draw_speed = 0 then (Some ZeroDivisionError, s)
      else
        let trace = (x \<noteq> 0 \<and> int x mod draw_speed = 0);
            s1 = emit ((if trace then [Tracer [1]] else []) @
                       [SetPosition (Num (real x * scale_x)) y] @
                       (if trace then [Tracer [0]] else []) @
                       (if x = 0 then [ShowTurtle, PenDown] else [])) s
        in draw_points draw_speed scale_x (Suc x) ys s1)"

text \<open>
  The outer loop over the curves: \<open>n\<close> is \<open>len(gamma)\<close> and \<open>i\<close> the index of the curve.
  Iterating a curve that is a number raises \<open>TypeError\<close>.
\<close>

fun draw_curves ::
  "string list \<Rightarrow> int \<Rightarrow> real \<Rightarrow> nat \<Rightarrow> nat \<Rightarrow> pyval list \<Rightarrow> plot \<Rightarrow> outcome" where
  "draw_curves colors draw_speed scale_x n i [] s = (None, s)"
| "draw_curves colors draw_speed scale_x n i (c # cs) s =
     (let s1 = (if n = length colors then emit [Color (colors ! i)] s
                else if length colors = 1 then emit [Color (colors ! 0)] s
                else s)
      in case c of
           Num v \<Rightarrow> (Some TypeError, s1)
         | Seq ys \<Rightarrow>
             andthen (draw_points draw_speed scale_x 0 ys s1)
               (\<lambda>s2. draw_curves colors draw_speed scale_x n (Suc i) cs
                        (emit [PenUp, HideTurtle, Update] s2)))"

text \<open>
  The first two statements of \<open>plot_table\<close>: a single argument of length 3 replaces the
  argument list (\<open>len\<close> of a number raises \<open>TypeError\<close>), and a list of equal curves is
  cut to its first element.
\<close>

definition unpack :: "pyval list \<Rightarrow> error + pyval list" where
  "unpack gamma =
     (if length gamma = 1 then
        (case gamma ! 0 of
           Num v \<Rightarrow> Inl TypeError
         | Seq g \<Rightarrow> Inr (if length g = 3 then g else gamma))
      else Inr gamma)"

definition collapse :: "pyval list \<Rightarrow> pyval list" where
  "collapse gamma = (if list_all (\<lambda>x. x = gamma ! 0) gamma then take 1 gamma else gamma)"

definition plot_setup :: "turtle_op list" where
  "plot_setup = [PenUp, Tracer [0, 16], Speed 0, Color ''black'']"

text \<open>\<open>Plot.plot_table\<close>.\<close>

definition plot_table :: "pyval list \<Rightarrow> string list \<Rightarrow> int \<Rightarrow> real \<Rightarrow> plot \<Rightarrow> outcome" where
  "plot_table gamma colors draw_speed scale_x s =
     (case unpack gamma of
        Inl e \<Rightarrow> (Some e, s)
      | Inr gamma1 \<Rightarrow>
          let gamma2 = collapse gamma1 in
          draw_curves colors draw_speed scale_x (length gamma2) 0 gamma2 (emit plot_setup s))"

text \<open>\<open>Plot.do_plot\<close>: the keyword arguments stored are those \<open>plot\<close> passes on.\<close>

definition do_plot :: "pyval list \<Rightarrow> string list \<Rightarrow> int \<Rightarrow> real \<Rightarrow> plot \<Rightarrow> outcome" where
  "do_plot gamma colors draw_speed scale_x s =
     plot_table gamma colors draw_speed scale_x
       (s\<lparr>tables := tables s @ [(gamma, \<lparr>kw_colors = colors, kw_scale_x = scale_x\<rparr>)]\<rparr>)"

section \<open>Command channel and renderer loop\<close>

text \<open>
  The producers and the renderer run in different threads. What the other threads do to
  the state while a call waits (one second in \<open>queue.put\<close> or \<open>queue.get\<close>) is the
  parameter \<open>env\<close>: \<open>env n\<close> is applied during the \<open>n\<close>-th wait. A loop that waits forever
  has no result (\<open>None\<close>). The diagnostic \<open>print\<close> of \<open>enqueue\<close> and \<open>KeyboardInterrupt\<close> are
  not modelled.
\<close>

partial_function (option) enqueue ::
  "(nat \<Rightarrow> plot \<Rightarrow> plot) \<Rightarrow> cmd \<Rightarrow> nat \<Rightarrow> plot \<Rightarrow> outcome option" where
  "enqueue env func retry_count s =
     (if closed s then Some (Some PlotClosed, s)
      else if length (queue s) < 1 then Some (None, s\<lparr>queue := queue s @ [func]\<rparr>)
      else
        let s1 = env retry_count s in
        if length (queue s1) < 1 then Some (None, s1\<lparr>queue := queue s1 @ [func]\<rparr>)
        else enqueue env func (retry_count + 1) s1)"

text \<open>\<open>Plot.close\<close>: \<open>PlotClosed\<close> is swallowed.\<close>

definition close :: "(nat \<Rightarrow> plot \<Rightarrow> plot) \<Rightarrow> plot \<Rightarrow> outcome option" where
  "close env s =
     (case enqueue env DoClose 0 s of
        None \<Rightarrow> None
      | Some (e, s1) \<Rightarrow> Some (if e = Some PlotClosed then None else e, s1))"

text \<open>The loop of \<open>run\<close> that waits for the first command.\<close>

partial_function (option) wait_cmd ::
  "(nat \<Rightarrow> plot \<Rightarrow> plot) \<Rightarrow> nat \<Rightarrow> plot \<Rightarrow> (cmd \<times> plot) option" where
  "wait_cmd env n s =
     (case queue s of
        c # cs \<Rightarrow> Some (c, s\<lparr>queue := cs\<rparr>)
      | [] \<Rightarrow> wait_cmd env (n + 1) (env n s))"

text \<open>Calling a command.\<close>

fun exec_cmd :: "toolkit \<Rightarrow> cmd \<Rightarrow> plot \<Rightarrow> outcome" where
  "exec_cmd tk (DoClear ls) s = do_clear tk ls s"
| "exec_cmd tk (DoZoom level direction) s = do_zoom tk level direction s"
| "exec_cmd tk (DoPlot gamma colors draw_speed scale_x) s = do_plot gamma colors draw_speed scale_x s"
| "exec_cmd tk DoClose s = (None, emit [Bye] s)"
| "exec_cmd tk (Other k) s = (None, s)"

text \<open>
  \<open>Plot.run\<close>. \<open>mainloop\<close> is what \<open>turtle.mainloop()\<close> does to the state until it returns
  (the timer callbacks run inside it), \<open>None\<close> when it never returns. \<open>Terminator\<close> is
  caught, other exceptions propagate, and the \<open>finally\<close> block runs in each case.
\<close>

definition run ::
  "toolkit \<Rightarrow> (plot \<Rightarrow> outcome option) \<Rightarrow> (nat \<Rightarrow> plot \<Rightarrow> plot) \<Rightarrow> plot \<Rightarrow> outcome option" where
  "run tk mainloop env s =
     (if closed s then Some (Some PlotClosed, s)
      else
        case wait_cmd env 0 s of
          None \<Rightarrow> None
        | Some (cmd, s1) \<Rightarrow>
            if cmd \<noteq> DoClose then
              (case (case andthen (andthen (do_zoom tk None (0, 0) s1) (do_clear tk []))
                            (exec_cmd tk cmd) of
                       (Some e, s2) \<Rightarrow> Some (Some e, s2)
                     | (None, s2) \<Rightarrow> mainloop (emit [OnTimer 100, MainLoop] s2)) of
                 None \<Rightarrow> None
               | Some (e, s3) \<Rightarrow>
                   Some (if e = Some Terminator then None else e,
                         emit [Bye] (s3\<lparr>closed := True\<rparr>)))
            else Some (None, s1\<lparr>closed := True\<rparr>))"


section \<open>Properties of the command channel and the renderer loop\<close>

definition idle :: "nat \<Rightarrow> plot \<Rightarrow> plot" where
  "idle n s = s"

definition renderer_takes :: "nat \<Rightarrow> plot \<Rightarrow> plot" where
  "renderer_takes n s = s\<lparr>queue := tl (queue s)\<rparr>"

definition close_queued :: plot where
  "close_queued = (init 1 1)\<lparr>queue := [DoClose]\<rparr>"

definition no_mainloop :: "plot \<Rightarrow> outcome option" where
  "no_mainloop s = Some (None, s)"

lemma enqueue_idle_full:
  assumes "enqueue env func n s = Some y"
  shows "env = idle \<longrightarrow> closed s \<or> length (queue s) < 1"
proof (rule enqueue.raw_induct[where P = "\<lambda>env func n s y. env = idle \<longrightarrow> closed s \<or> length (queue s) < 1",
        OF _ assms])
  fix enq :: "(nat \<Rightarrow> plot \<Rightarrow> plot) \<Rightarrow> cmd \<Rightarrow> nat \<Rightarrow> plot \<Rightarrow> outcome option"
    and env func retry_count s y
  assume IH: "\<And>env func retry_count s y. enq env func retry_count s = Some y \<Longrightarrow>
           env = idle \<longrightarrow> closed s \<or> length (queue s) < 1"
    and body: "(if closed s then Some (Some PlotClosed, s)
      else if length (queue s) < 1 then Some (None, s\<lparr>queue := queue s @ [func]\<rparr>)
      else
        let s1 = env retry_count s in
        if length (queue s1) < 1 then Some (None, s1\<lparr>queue := queue s1 @ [func]\<rparr>)
        else enq env func (retry_count + 1) s1) = Some y"
  show "env = idle \<longrightarrow> closed s \<or> length (queue s) < 1"
  proof (intro impI, rule ccontr)
    assume e: "env = idle" and n: "\<not> (closed s \<or> length (queue s) < 1)"
    have "env retry_count s = s" using e by (simp add: idle_def)
    then have "enq env func (retry_count + 1) s = Some y"
      using body n by (simp add: Let_def)
    then show False using IH e n by blast
  qed
qed

lemma enqueue_idle_never:
  "\<not> closed s \<Longrightarrow> queue s \<noteq> [] \<Longrightarrow> enqueue idle func n s = None"
  using enqueue_idle_full[of idle func n s] by (cases "enqueue idle func n s") auto

lemma run_sets_closed:
  "run tk mainloop env s = Some (e, s') \<Longrightarrow> closed s'"
  by (auto simp: run_def split: if_splits option.splits prod.splits)

text \<open>
  Claim C9. If the plot is not closed and the first command the run loop takes from the
  queue is the close command, \<open>run\<close> returns normally, and the state it returns is the one
  the wait left with only the closed flag set: no call is made on the turtle module and
  no zoom is done.
\<close>

theorem run_close_first:
  assumes "\<not> closed s" and "wait_cmd env 0 s = Some (DoClose, s1)"
  shows "run tk mainloop env s = Some (None, s1\<lparr>closed := True\<rparr>)"
  using assms by (simp add: run_def)

text \<open>Claim C9 at a new instance whose queue holds the close command.\<close>

theorem run_close_first_witness:
  "run demo_toolkit no_mainloop idle close_queued = Some (None, (init 1 1)\<lparr>closed := True\<rparr>) \<and>
   canvas ((init 1 1)\<lparr>closed := True\<rparr>) = [] \<and>
   zoom_area ((init 1 1)\<lparr>closed := True\<rparr>) = zoom_area (init 1 1)"
proof -
  have c: "\<not> closed close_queued"
    by (simp add: close_queued_def init_def)
  have w: "wait_cmd idle 0 close_queued = Some (DoClose, init 1 1)"
    by (subst wait_cmd.simps) (simp add: close_queued_def init_def)
  show ?thesis
    using run_close_first[OF c w, of demo_toolkit no_mainloop]
    by (simp add: init_def)
qed

text \<open>
  Claim C2, as amended. Once the closed flag is set (\<open>run\<close> sets it when it ends), every
  call of \<open>enqueue\<close> raises \<open>PlotClosed\<close> and leaves the queue as it is, whatever the other
  threads do, and \<open>close\<close> does nothing.
\<close>

theorem enqueue_when_closed:
  assumes "closed s"
  shows "enqueue env func n s = Some (Some PlotClosed, s) \<and> close env s = Some (None, s)"
proof -
  have "enqueue env f k s = Some (Some PlotClosed, s)" for f k
    using assms by (subst enqueue.simps) simp
  then show ?thesis by (simp add: close_def)
qed

text \<open>The amended claim C2 after \<open>close\<close> and \<open>run\<close> on a new instance.\<close>

theorem enqueue_when_closed_witness:
  "run demo_toolkit no_mainloop idle close_queued = Some (None, (init 1 1)\<lparr>closed := True\<rparr>) \<and>
   enqueue idle (Other 0) 0 ((init 1 1)\<lparr>closed := True\<rparr>) =
     Some (Some PlotClosed, (init 1 1)\<lparr>closed := True\<rparr>)"
proof -
  have c: "\<not> closed close_queued"
    by (simp add: close_queued_def init_def)
  have w: "wait_cmd idle 0 close_queued = Some (DoClose, init 1 1)"
    by (subst wait_cmd.simps) (simp add: close_queued_def init_def)
  have r: "run demo_toolkit no_mainloop idle close_queued = Some (None, (init 1 1)\<lparr>closed := True\<rparr>)"
    using c w by (simp add: run_def)
  have d: "closed ((init 1 1)\<lparr>closed := True\<rparr>)" by simp
  show ?thesis
    using enqueue_when_closed[OF d, of idle "Other 0" 0] r by simp
qed

text \<open>
  Claim C2 as stated fails. \<open>close\<close> on a new instance queues the close command and leaves
  the closed flag unset. A following \<open>enqueue\<close> then delivers its command when the
  renderer takes the close command from the queue during the wait, and never returns
  when no other thread runs; in neither case does it raise \<open>PlotClosed\<close>.
\<close>

theorem enqueue_after_close_counterexample:
  "close idle (init 1 1) = Some (None, close_queued) \<and>
   \<not> closed close_queued \<and>
   enqueue renderer_takes (Other 0) 0 close_queued = Some (None, (init 1 1)\<lparr>queue := [Other 0]\<rparr>) \<and>
   enqueue idle (Other 0) 0 close_queued = None"
proof -
  have a: "close idle (init 1 1) = Some (None, close_queued)"
    unfolding close_def by (subst enqueue.simps) (simp add: init_def close_queued_def)
  have b: "\<not> closed close_queued"
    by (simp add: close_queued_def init_def)
  have c: "enqueue renderer_takes (Other 0) 0 close_queued = Some (None, (init 1 1)\<lparr>queue := [Other 0]\<rparr>)"
    by (subst enqueue.simps) (simp add: init_def close_queued_def renderer_takes_def Let_def)
  have d: "enqueue idle (Other 0) 0 close_queued = None"
    by (rule enqueue_idle_never) (simp_all add: close_queued_def init_def)
  show ?thesis using a b c d by simp
qed

section \<open>Properties of the plot drawer\<close>

text \<open>
  Claim C10, as amended. For a single argument that is a curve of three numeric samples
  the unpack triggers: the call behaves as if the three samples had been passed as three
  arguments, and since a number is not a sequence of samples it raises \<open>TypeError\<close> at the
  first of them, after the pen setup and the choice of a colour. No segment is drawn, so
  the curve is never drawn as one polyline.
\<close>

theorem plot_table_three_samples:
  "unpack [Seq [Num a, Num b, Num c]] = Inr [Num a, Num b, Num c] \<and>
   plot_table [Seq [Num a, Num b, Num c]] colors draw_speed scale_x s =
     plot_table [Num a, Num b, Num c] colors draw_speed scale_x s \<and>
   fst (plot_table [Seq [Num a, Num b, Num c]] colors draw_speed scale_x s) = Some TypeError \<and>
   segments pn (canvas (snd (plot_table [Seq [Num a, Num b, Num c]] colors draw_speed scale_x s))) =
     segments pn (canvas s)"
proof -
  have u: "unpack [Seq [Num a, Num b, Num c]] = Inr [Num a, Num b, Num c]"
    "unpack [Num a, Num b, Num c] = Inr [Num a, Num b, Num c]"
    by (simp_all add: unpack_def)
  have "\<exists>g. collapse [Num a, Num b, Num c] = Num a # g"
    by (simp add: collapse_def)
  then obtain g where g: "collapse [Num a, Num b, Num c] = Num a # g" ..
  define cs where "cs = (if Suc (length g) = length colors then [Color (colors ! 0)]
                         else if length colors = 1 then [Color (colors ! 0)] else [])"
  have r: "plot_table [Seq [Num a, Num b, Num c]] colors draw_speed scale_x s =
      (Some TypeError, emit (plot_setup @ cs) s)"
    by (simp add: plot_table_def u g Let_def cs_def)
  have cs: "cs = [] \<or> (\<exists>k. cs = [Color k])"
    by (simp add: cs_def)
  have "segments pn (canvas s @ plot_setup @ cs) = segments pn (canvas s)"
    using cs by (cases "foldl pen_step pn (canvas s)") (auto simp: segments_append plot_setup_def)
  then show ?thesis
    using r by (simp add: u plot_table_def)
qed

text \<open>
  Claim C10 as stated fails: the curve \<open>[1, 2, 3]\<close> is not drawn as the three one-sample
  curves \<open>[1]\<close>, \<open>[2]\<close>, \<open>[3]\<close> are: the former call raises \<open>TypeError\<close> and moves the pen
  nowhere, the latter returns normally and moves it to three points.
\<close>

theorem plot_table_three_samples_counterexample:
  "fst (plot_table [Seq [Num 1, Num 2, Num 3]] [''red'', ''green'', ''blue''] 16 1 (init 1 1))
     = Some TypeError \<and>
   fst (plot_table [Seq [Num 1], Seq [Num 2], Seq [Num 3]] [''red'', ''green'', ''blue''] 16 1 (init 1 1))
     = None \<and>
   canvas (snd (plot_table [Seq [Num 1, Num 2, Num 3]] [''red'', ''green'', ''blue''] 16 1 (init 1 1)))
     = plot_setup @ [Color ''red''] \<and>
   canvas (snd (plot_table [Seq [Num 1], Seq [Num 2], Seq [Num 3]] [''red'', ''green'', ''blue''] 16 1
       (init 1 1)))
     = plot_setup @
       [Color ''red'', SetPosition (Num 0) (Num 1), ShowTurtle, PenDown, PenUp, HideTurtle, Update,
        Color ''green'', SetPosition (Num 0) (Num 2), ShowTurtle, PenDown, PenUp, HideTurtle, Update,
        Color ''blue'', SetPosition (Num 0) (Num 3), ShowTurtle, PenDown, PenUp, HideTurtle, Update]"
  by code_simp


section \<open>Lines outside the zoom rectangle\<close>

lemma filter_nth_take:
  "i < length X \<Longrightarrow> P (X ! i) \<Longrightarrow>
   length (filter P (take i X)) < length (filter P X) \<and>
   filter P X ! length (filter P (take i X)) = X ! i"
proof (induction X arbitrary: i)
  case Nil
  then show ?case by simp
next
  case (Cons a X)
  then show ?case by (cases i) auto
qed

lemma filter_update_take:
  "i < length X \<Longrightarrow> P (X ! i) \<Longrightarrow> P y \<Longrightarrow>
   filter P (X[i := y]) = (filter P X)[length (filter P (take i X)) := y]"
proof (induction X arbitrary: i)
  case Nil
  then show ?case by simp
next
  case (Cons a X)
  then show ?case by (cases i) auto
qed

lemma filter_update_drop:
  "i < length X \<Longrightarrow> \<not> P (X ! i) \<Longrightarrow> \<not> P y \<Longrightarrow> filter P (X[i := y]) = filter P X"
proof (induction X arbitrary: i)
  case Nil
  then show ?case by simp
next
  case (Cons a X)
  then show ?case by (cases i) auto
qed

lemma count_update_same:
  "P y = P (X ! k) \<Longrightarrow> k < length X \<Longrightarrow>
   length (filter P (take j (X[k := y]))) = length (filter P (take j X))"
proof (induction X arbitrary: j k)
  case Nil
  then show ?case by simp
next
  case (Cons a X)
  show ?case
  proof (cases j)
    case 0
    then show ?thesis by simp
  next
    case (Suc j')
    show ?thesis
    proof (cases k)
      case 0
      then show ?thesis using Cons.prems Suc by simp
    next
      case (Suc k')
      then show ?thesis using Cons.prems Cons.IH[where k = k' and j = j'] \<open>j = Suc j'\<close> by simp
    qed
  qed
qed

lemma count_take_Suc:
  "i < length X \<Longrightarrow>
   length (filter P (take (Suc i) X)) = length (filter P (take i X)) + (if P (X ! i) then 1 else 0)"
  by (simp add: take_Suc_conv_app_nth)


text \<open>
  Removing lines that carry no label commutes with the overlap pass. The two runs are
  related by \<open>sim\<close>: the second list is the first one filtered, and a reference into the
  first list corresponds to the position of the same line in the second.
\<close>

definition label_blind :: "(gridline \<Rightarrow> bool) \<Rightarrow> bool" where
  "label_blind P = (\<forall>l. P (l\<lparr>label := None\<rparr>) = P l)"

lemma label_blindD: "label_blind P \<Longrightarrow> P (l\<lparr>label := None\<rparr>) = P l"
  by (simp add: label_blind_def)

definition ref_ok :: "(gridline \<Rightarrow> bool) \<Rightarrow> gridline list \<Rightarrow> nat option \<Rightarrow> nat option \<Rightarrow> bool" where
  "ref_ok P X r r' =
     (case r of
        None \<Rightarrow> r' = None
      | Some j \<Rightarrow> j < length X \<and> P (X ! j) \<and> r' = Some (length (filter P (take j X))))"

definition sim :: "(gridline \<Rightarrow> bool) \<Rightarrow> overlap_state \<Rightarrow> overlap_state \<Rightarrow> bool" where
  "sim P st st' =
     (case st of (X, lastl, lastp) \<Rightarrow>
      case st' of (Y, lastl', lastp') \<Rightarrow>
        Y = filter P X \<and> lastp' = lastp \<and>
        list_all (\<lambda>l. P l \<or> \<not> truthy (label l)) X \<and>
        ref_ok P X (fst lastl) (fst lastl') \<and> ref_ok P X (snd lastl) (snd lastl'))"

definition sim_res ::
  "(gridline \<Rightarrow> bool) \<Rightarrow> error + overlap_state \<Rightarrow> error + overlap_state \<Rightarrow> bool" where
  "sim_res P r r' =
     (case r of
        Inl e \<Rightarrow> r' = Inl e
      | Inr st \<Rightarrow> (case r' of Inl e \<Rightarrow> False | Inr st' \<Rightarrow> sim P st st'))"

lemma ref_ok_update:
  assumes "label_blind P" and "ref_ok P X r r'" and "k < length X"
  shows "ref_ok P (X[k := (X ! k)\<lparr>label := None\<rparr>]) r r'"
proof (cases r)
  case None
  then show ?thesis using assms(2) by (simp add: ref_ok_def)
next
  case (Some j)
  then have j: "j < length X" "P (X ! j)" "r' = Some (length (filter P (take j X)))"
    using assms(2) by (simp_all add: ref_ok_def)
  have "P ((X[k := (X ! k)\<lparr>label := None\<rparr>]) ! j)"
    using j label_blindD[OF assms(1)] assms(3) by (cases "j = k") simp_all
  moreover have "length (filter P (take j (X[k := (X ! k)\<lparr>label := None\<rparr>]))) =
      length (filter P (take j X))"
    using label_blindD[OF assms(1)] assms(3) by (simp add: count_update_same)
  ultimately show ?thesis using Some j by (simp add: ref_ok_def)
qed

lemma sim_update:
  assumes st: "label_blind P"
    and s: "sim P (X, lastl, lastp) (Y, lastl', lastp')"
    and k: "k < length X" and p: "P (X ! k)"
  shows "sim P (X[k := (X ! k)\<lparr>label := None\<rparr>], lastl, lastp)
           (Y[length (filter P (take k X)) := (Y ! length (filter P (take k X)))\<lparr>label := None\<rparr>],
            lastl', lastp')"
proof -
  have y: "Y = filter P X" using s by (simp add: sim_def)
  have n: "Y ! length (filter P (take k X)) = X ! k"
    using filter_nth_take[of k X P] k p y by simp
  have f: "filter P (X[k := (X ! k)\<lparr>label := None\<rparr>]) =
        Y[length (filter P (take k X)) := (X ! k)\<lparr>label := None\<rparr>]"
    using filter_update_take[of k X P "(X ! k)\<lparr>label := None\<rparr>"] k label_blindD[OF st] p y by simp
  have a: "list_all (\<lambda>l. P l \<or> \<not> truthy (label l)) (X[k := (X ! k)\<lparr>label := None\<rparr>])"
  proof -
    have "list_all (\<lambda>l. P l \<or> \<not> truthy (label l)) X" using s by (simp add: sim_def)
    moreover have "set (X[k := (X ! k)\<lparr>label := None\<rparr>]) \<subseteq> insert ((X ! k)\<lparr>label := None\<rparr>) (set X)"
      by (rule set_update_subset_insert)
    ultimately show ?thesis
      by (auto simp: list_all_iff truthy_def)
  qed
  show ?thesis
    using s a f n ref_ok_update[OF st _ k]
    by (simp add: sim_def)
qed

lemma sim_last:
  assumes s: "sim P (X, lastl, lastp) (Y, lastl', lastp')"
    and k: "k < length X" and p: "P (X ! k)"
  shows "sim P (X, set2 lastl h (Some k), set2 lastp h b)
           (Y, set2 lastl' h (Some (length (filter P (take k X)))), set2 lastp' h b)"
  using assms by (auto simp: sim_def set2_def ref_ok_def split: option.splits)

lemma idx2_ref_ok:
  "sim P (X, lastl, lastp) (Y, lastl', lastp') \<Longrightarrow> ref_ok P X (idx2 lastl h) (idx2 lastl' h)"
  by (simp add: sim_def idx2_def)

lemma step_skip:
  assumes "sim P (X, lastl, lastp) (Y, lastl', lastp')" and "i < length X" and "\<not> P (X ! i)"
  shows "overlap_step tk s i (X, lastl, lastp) = Inr (X, lastl, lastp)"
proof -
  have "list_all (\<lambda>l. P l \<or> \<not> truthy (label l)) X" using assms(1) by (simp add: sim_def)
  then have "\<not> truthy (label (X ! i))"
    using assms(2,3) by (auto simp: list_all_length)
  then show ?thesis by (simp add: overlap_step_def Let_def)
qed

lemma step_keep:
  assumes st: "label_blind P"
    and s: "sim P (X, lastl, lastp) (Y, lastl', lastp')"
    and i: "i < length X" and p: "P (X ! i)"
  shows "sim_res P (overlap_step tk s i (X, lastl, lastp))
           (overlap_step tk s (length (filter P (take i X))) (Y, lastl', lastp'))"
proof -
  define i' where "i' = length (filter P (take i X))"
  define line where "line = X ! i"
  have y: "Y = filter P X" and lp: "lastp' = lastp" using s by (simp_all add: sim_def)
  have n: "Y ! i' = line"
    using filter_nth_take[of i X P] i p y by (simp add: i'_def line_def)
  show ?thesis
  proof (cases "truthy (label line)")
    case False
    then show ?thesis
      using s n by (simp add: overlap_step_def Let_def i'_def[symmetric] line_def[symmetric] sim_res_def)
  next
    case lab: True
    show ?thesis
    proof (cases "pos line")
      case None
      then show ?thesis
        using lab n by (simp add: overlap_step_def Let_def i'_def[symmetric] line_def[symmetric] sim_res_def)
    next
      case (Some q)
      show ?thesis
      proof (cases "label_size tk s (the (label line))")
        case (Inl e)
        then show ?thesis
          using lab n Some
          by (simp add: overlap_step_def Let_def i'_def[symmetric] line_def[symmetric] sim_res_def)
      next
        case (Inr sz)
        define pad where "pad = idx2 sz (hidx line) * 0.6"
        have pe: "idx2 sz (hidx line) * 3 / 5 = pad" by (simp add: pad_def)
        show ?thesis
        proof (cases "below (q - pad) (idx2 lastp (hidx line))")
          case False
          have "sim P (X, set2 lastl (hidx line) (Some i), set2 lastp (hidx line) (Fin (q + pad)))
                  (Y, set2 lastl' (hidx line) (Some i'), set2 lastp' (hidx line) (Fin (q + pad)))"
            unfolding i'_def by (rule sim_last[OF s i p])
          then show ?thesis
            using lab n Some Inr False lp
            by (simp add: overlap_step_def Let_def i'_def[symmetric] line_def[symmetric]
                sim_res_def pe)
        next
          case ov: True
          have r: "ref_ok P X (idx2 lastl (hidx line)) (idx2 lastl' (hidx line))"
            by (rule idx2_ref_ok[OF s])
          show ?thesis
          proof (cases "idx2 lastl (hidx line)")
            case None
            then have "idx2 lastl' (hidx line) = None" using r by (simp add: ref_ok_def)
            then show ?thesis
              using lab n Some Inr ov lp None
              by (simp add: overlap_step_def Let_def i'_def[symmetric] line_def[symmetric]
                  sim_res_def pe)
          next
            case (Some j)
            define j' where "j' = length (filter P (take j X))"
            have j: "j < length X" "P (X ! j)" "idx2 lastl' (hidx line) = Some j'"
              using r Some by (simp_all add: ref_ok_def j'_def)
            have nj: "Y ! j' = X ! j"
              using filter_nth_take[of j X P] j(1,2) y by (simp add: j'_def)
            show ?thesis
            proof (cases "prio line \<le> prio (X ! j)")
              case True
              have "sim P (X[i := line\<lparr>label := None\<rparr>], lastl, lastp)
                      (Y[i' := line\<lparr>label := None\<rparr>], lastl', lastp')"
                using sim_update[OF st s i p] n by (simp add: i'_def line_def)
              then show ?thesis
                using lab n \<open>pos line = Some q\<close> Inr ov lp Some j(3) nj True
                by (simp add: overlap_step_def Let_def i'_def[symmetric] line_def[symmetric]
                    sim_res_def pe)
            next
              case False
              have u: "sim P (X[j := (X ! j)\<lparr>label := None\<rparr>], lastl, lastp)
                      (Y[j' := (X ! j)\<lparr>label := None\<rparr>], lastl', lastp')"
                using sim_update[OF st s j(1,2)] nj by (simp add: j'_def)
              have pi: "P ((X[j := (X ! j)\<lparr>label := None\<rparr>]) ! i)"
                using p label_blindD[OF st] j(1) by (cases "i = j") simp_all
              have ci: "length (filter P (take i (X[j := (X ! j)\<lparr>label := None\<rparr>]))) = i'"
                using label_blindD[OF st] j(1) by (simp add: count_update_same i'_def)
              have "sim P (X[j := (X ! j)\<lparr>label := None\<rparr>], set2 lastl (hidx line) (Some i),
                        set2 lastp (hidx line) (Fin (q + pad)))
                      (Y[j' := (X ! j)\<lparr>label := None\<rparr>], set2 lastl' (hidx line) (Some i'),
                        set2 lastp' (hidx line) (Fin (q + pad)))"
                using sim_last[OF u _ pi, of "hidx line" "Fin (q + pad)"] i ci by simp
              then show ?thesis
                using lab n \<open>pos line = Some q\<close> Inr ov lp Some j(3) nj False
                by (simp add: overlap_step_def Let_def i'_def[symmetric] line_def[symmetric]
                    sim_res_def pe)
            qed
          qed
        qed
      qed
    qed
  qed
qed


lemma map_unlabel:
  assumes "label_blind P"
  shows "map P (X[k := (X ! k)\<lparr>label := None\<rparr>]) = map P X"
proof (cases "k < length X")
  case True
  then show ?thesis using label_blindD[OF assms] by (simp add: map_update list_update_same_conv)
next
  case False
  then show ?thesis by (simp add: list_update_beyond)
qed

lemma step_pattern:
  assumes "label_blind P"
    and "overlap_step tk s i (X, lastl, lastp) = Inr (X2, lastl2, lastp2)"
  shows "map P X2 = map P X"
  using assms(2) map_unlabel[OF assms(1), of X]
  by (auto simp: overlap_step_def Let_def split: if_splits option.splits sum.splits)

lemma count_by_pattern:
  "map P X2 = map P X \<Longrightarrow> length (filter P (take j X2)) = length (filter P (take j X))"
proof -
  assume a: "map P X2 = map P X"
  have "length (filter P (take j Z)) = length (filter (\<lambda>b. b) (take j (map P Z)))" for Z
    by (simp add: take_map filter_map comp_def)
  then show ?thesis using a by simp
qed

lemma loop_sim:
  assumes st: "label_blind P"
  shows "sim P (X, la, lp) (Y, la', lp') \<Longrightarrow> n = length X \<Longrightarrow> i \<le> n \<Longrightarrow>
         sim_res P (overlap_loop tk s [i..<n] (X, la, lp))
           (overlap_loop tk s [length (filter P (take i X))..<length Y] (Y, la', lp'))"
proof (induction "n - i" arbitrary: i X la lp Y la' lp')
  case 0
  then have "i = length X" by simp
  moreover have "Y = filter P X" using 0 by (simp add: sim_def)
  ultimately show ?case using 0 by (simp add: sim_res_def)
next
  case (Suc d)
  then have i: "i < length X" and n: "n = length X" by simp_all
  have y: "Y = filter P X" using Suc.prems(1) by (simp add: sim_def)
  have up: "[i..<n] = i # [Suc i..<n]" using i n by (simp add: upt_rec)
  show ?case
  proof (cases "P (X ! i)")
    case False
    have sk: "overlap_step tk s i (X, la, lp) = Inr (X, la, lp)"
      by (rule step_skip[OF Suc.prems(1) i False])
    have c: "length (filter P (take (Suc i) X)) = length (filter P (take i X))"
      using count_take_Suc[OF i, of P] False by simp
    have "sim_res P (overlap_loop tk s [Suc i..<n] (X, la, lp))
           (overlap_loop tk s [length (filter P (take (Suc i) X))..<length Y] (Y, la', lp'))"
      using Suc.hyps(1)[of "Suc i" X la lp Y la' lp'] Suc.hyps(2) Suc.prems i n by simp
    then show ?thesis by (simp add: up sk c)
  next
    case True
    define i' where "i' = length (filter P (take i X))"
    have i'l: "i' < length Y"
      using filter_nth_take[of i X P] i True y by (simp add: i'_def)
    have up': "[i'..<length Y] = i' # [Suc i'..<length Y]" using i'l by (simp add: upt_rec)
    have sr: "sim_res P (overlap_step tk s i (X, la, lp)) (overlap_step tk s i' (Y, la', lp'))"
      unfolding i'_def by (rule step_keep[OF st Suc.prems(1) i True])
    show ?thesis
    proof (cases "overlap_step tk s i (X, la, lp)")
      case (Inl e)
      then have "overlap_step tk s i' (Y, la', lp') = Inl e" using sr by (simp add: sim_res_def)
      then show ?thesis using Inl by (simp add: up up' i'_def[symmetric] sim_res_def)
    next
      case (Inr stA)
      obtain X2 la2 lp2 where stA: "stA = (X2, la2, lp2)" by (cases stA) auto
      obtain stB where B: "overlap_step tk s i' (Y, la', lp') = Inr stB" and sm: "sim P stA stB"
        using sr Inr by (auto simp: sim_res_def split: sum.splits)
      obtain Y2 lb2 lq2 where stB: "stB = (Y2, lb2, lq2)" by (cases stB) auto
      have pat: "map P X2 = map P X"
        using step_pattern[OF st, of tk s i X la lp X2 la2 lp2] Inr stA by simp
      have len: "length X2 = length X"
        using pat by (metis length_map)
      have y2: "Y2 = filter P X2" using sm stA stB by (simp add: sim_def)
      have "length (filter P X2) = length (filter P X)"
        using count_by_pattern[OF pat, of "length X"] len by simp
      then have leny: "length Y2 = length Y" using y y2 by simp
      have c: "length (filter P (take (Suc i) X2)) = Suc i'"
        using count_by_pattern[OF pat, of "Suc i"] count_take_Suc[OF i, of P] True
        by (simp add: i'_def)
      have "sim_res P (overlap_loop tk s [Suc i..<n] (X2, la2, lp2))
           (overlap_loop tk s [length (filter P (take (Suc i) X2))..<length Y2] (Y2, lb2, lq2))"
        using Suc.hyps(1)[of "Suc i" X2 la2 lp2 Y2 lb2 lq2] Suc.hyps(2) sm stA stB i n len by simp
      then show ?thesis
        using Inr B stA stB by (simp add: up up' i'_def[symmetric] c leny)
    qed
  qed
qed

lemma resolve_filter:
  assumes st: "label_blind P"
    and un: "list_all (\<lambda>l. P l \<or> \<not> truthy (label l)) ls"
  shows "resolve_overlaps tk s (filter P ls) =
           (case resolve_overlaps tk s ls of Inl e \<Rightarrow> Inl e | Inr r \<Rightarrow> Inr (filter P r))"
proof -
  have s0: "sim P (ls, (None, None), (NegInf, NegInf)) (filter P ls, (None, None), (NegInf, NegInf))"
    using un by (simp add: sim_def ref_ok_def)
  have "sim_res P (overlap_loop tk s [0..<length ls] (ls, (None, None), (NegInf, NegInf)))
           (overlap_loop tk s [length (filter P (take 0 ls))..<length (filter P ls)]
              (filter P ls, (None, None), (NegInf, NegInf)))"
    by (rule loop_sim[OF st s0]) simp_all
  then show ?thesis
    by (auto simp: resolve_overlaps_def sim_res_def sim_def split: sum.splits prod.splits)
qed

lemma inside_label_blind: "label_blind (inside s)"
  by (simp add: label_blind_def)

lemma margin_pass_filter:
  "list_all (\<lambda>l. pos l \<noteq> None) ls \<Longrightarrow>
   margin_pass tk s mp ms (filter (inside s) ls) m =
     (case margin_pass tk s mp ms ls m of
        Inl e \<Rightarrow> Inl e
      | Inr (ls1, m1) \<Rightarrow> Inr (filter (inside s) ls1, m1))"
proof (induction ls arbitrary: m)
  case Nil
  then show ?case by simp
next
  case (Cons a ls)
  then obtain p where p: "pos a = Some p" by auto
  have IH: "margin_pass tk s mp ms (filter (inside s) ls) m' =
     (case margin_pass tk s mp ms ls m' of
        Inl e \<Rightarrow> Inl e
      | Inr (ls1, m1) \<Rightarrow> Inr (filter (inside s) ls1, m1))" for m'
    using Cons by simp
  have io: "inside s a = (\<not> (p < zoom_area s ! (0 + hidx a) \<or> p > zoom_area s ! (2 + hidx a)))"
    using p by (auto simp: inside_def)
  show ?case
  proof (cases "truthy (label a)")
    case False
    show ?thesis
    proof (cases "inside s a")
      case True
      then show ?thesis
        using False
        by (cases "margin_pass tk s mp ms ls m") (auto simp: IH[of m])
    next
      case out: False
      then show ?thesis
        using False
        by (cases "margin_pass tk s mp ms ls m") (auto simp: IH[of m])
    qed
  next
    case lab: True
    show ?thesis
    proof (cases "inside s a")
      case False
      then have o: "p < zoom_area s ! (0 + hidx a) \<or> p > zoom_area s ! (2 + hidx a)"
        using io by simp
      have "margin_pass tk s mp ms (a # ls) m =
          (case margin_pass tk s mp ms ls m of
             Inl e \<Rightarrow> Inl e
           | Inr (ls1, m') \<Rightarrow> Inr (a\<lparr>label := None\<rparr> # ls1, m'))"
        using lab p o by simp
      then show ?thesis
        using False
        by (cases "margin_pass tk s mp ms ls m") (auto simp: IH[of m])
    next
      case True
      then have i: "\<not> (p < zoom_area s ! (0 + hidx a) \<or> p > zoom_area s ! (2 + hidx a))"
        using io by simp
      show ?thesis
      proof (cases "label_size tk s (the (label a))")
        case (Inl e)
        then show ?thesis using lab p i True by simp
      next
        case (Inr sz)
        show ?thesis
        proof (cases "label_pos tk s p (the (label a)) (hbool a)")
          case (Inl e)
          then show ?thesis using lab p i True Inr by simp
        next
          case lp: (Inr lpos)
          define m1 where "m1 = fold (margin_axis mp ms (plot_area s)
                (fst lpos - fst sz / (if hbool a then 1 else 2), snd lpos) sz) [0..<2] m"
          have A: "margin_pass tk s mp ms (a # ls) m =
              (case margin_pass tk s mp ms ls m1 of
                 Inl e \<Rightarrow> Inl e
               | Inr (ls1, m') \<Rightarrow> Inr (a # ls1, m'))"
            using lab p i Inr lp by (simp add: Let_def m1_def)
          have B: "margin_pass tk s mp ms (a # filter (inside s) ls) m =
              (case margin_pass tk s mp ms (filter (inside s) ls) m1 of
                 Inl e \<Rightarrow> Inl e
               | Inr (ls1, m') \<Rightarrow> Inr (a # ls1, m'))"
            using lab p i Inr lp by (simp add: Let_def m1_def)
          show ?thesis
            using True
            by (cases "margin_pass tk s mp ms ls m1")
              (auto simp: A B IH[of m1] simp del: margin_pass.simps)
        qed
      qed
    qed
  qed
qed

lemma margin_pass_unlabelled:
  assumes "margin_pass tk s mp ms ls m = Inr (ls1, m1)"
  shows "list_all (\<lambda>l. inside s l \<or> \<not> truthy (label l)) ls1"
  using margin_pass_labelled_inside[OF assms] by (auto simp: list_all_iff)

lemma draw_line_not_inside: "\<not> inside s a \<Longrightarrow> draw_line tk a s = (None, s)"
  by (auto simp: draw_line_def inside_def Let_def split: option.splits)


text \<open>
  \<open>draw_line\<close> reads the screen scales, the zoom rectangle, the plot area and the font, and
  adds calls to the trace: in two states that agree on what it reads it raises the same
  exception after the same calls.
\<close>

definition agree :: "plot \<Rightarrow> plot \<Rightarrow> bool" where
  "agree S s = (xscale S = xscale s \<and> yscale S = yscale s \<and> zoom_area S = zoom_area s \<and>
                plot_area S = plot_area s \<and> font S = font s)"

lemma agree_label_pos: "agree S s \<Longrightarrow> label_pos tk S = label_pos tk s"
  by (auto simp: label_pos_def fun_eq_iff Let_def agree_def)

lemma agree_label_size: "agree S s \<Longrightarrow> label_size tk S = label_size tk s"
  by (auto simp: label_size_def fun_eq_iff Let_def agree_def)

lemma agree_inside: "agree S s \<Longrightarrow> inside S a = inside s a"
  by (simp add: inside_def agree_def split: option.splits)

lemma agree_stroke_ops: "agree S s \<Longrightarrow> stroke_ops S a = stroke_ops s a"
  by (simp add: stroke_ops_def agree_def Let_def cong del: if_weak_cong)

lemma agree_emit [simp]: "agree (emit ops S) s = agree S s"
  by (simp add: agree_def)

lemma agree_refl [simp]: "agree s s"
  by (simp add: agree_def)

lemma draw_line_shape:
  "\<exists>e ops. \<forall>S. agree S s \<longrightarrow> draw_line tk a S = (e, emit ops S)"
proof (cases "inside s a")
  case False
  then have "agree S s \<longrightarrow> draw_line tk a S = (None, emit [] S)" for S
    using draw_line_not_inside[of S a tk] agree_inside[of S s a]
    by (simp add: emit_def)
  then show ?thesis by blast
next
  case True
  then obtain p where p: "pos a = Some p" by (auto simp: inside_def split: option.splits)
  have z: "\<not> (p < zoom_area s ! (0 + hidx a) \<or> p > zoom_area s ! (2 + hidx a))"
    using True p by (auto simp: inside_def)
  define Z where "Z = (if hbool a then xscale s = 0 else yscale s = 0)"
  define lc where "lc = (case label_color a of None \<Rightarrow> ''gray35'' | Some c \<Rightarrow> c)"
  show ?thesis
  proof (cases "truthy (label a)")
    case False
    have "draw_line tk a S =
        (if Z then Some ZeroDivisionError else None,
         emit (if Z then [PenUp] else [PenUp] @ stroke_ops s a) S)" if "agree S s" for S
    proof -
      have f: "xscale S = xscale s" "yscale S = yscale s" "zoom_area S = zoom_area s"
        "plot_area S = plot_area s"
        using that by (simp_all add: agree_def)
      show ?thesis
        using False z unfolding draw_line_def
        by (simp add: p Let_def andthen_def stroke_ops_def Z_def f)
    qed
    then show ?thesis by blast
  next
    case lab: True
    show ?thesis
    proof (cases "label_pos tk s p (the (label a)) (hbool a)")
      case (Inl e)
      have "draw_line tk a S = (Some e, emit [PenUp, Color lc] S)" if "agree S s" for S
      proof -
        have f: "xscale S = xscale s" "yscale S = yscale s" "zoom_area S = zoom_area s"
          "plot_area S = plot_area s"
          using that by (simp_all add: agree_def)
        show ?thesis
          using lab z Inl unfolding draw_line_def
          by (simp add: p Let_def andthen_def lc_def agree_label_pos[OF that] f)
      qed
      then show ?thesis by blast
    next
      case (Inr xy)
      obtain x y where xy: "xy = (x, y)" by (cases xy) auto
      define pre where "pre = [PenUp, Color lc, SetPosition (Num x) (Num y),
         Write (the (label a)) (if hbool a then ''right'' else ''center'') (font s)]"
      define mid where "mid = [SetPosition (Num (if hbool a then - 4 / xscale s else p))
            (Num (if hbool a then p else - 4 / yscale s)), PenDown]"
      have "draw_line tk a S =
          (if Z then Some ZeroDivisionError else None,
           emit (if Z then pre else pre @ mid @ stroke_ops s a) S)" if "agree S s" for S
      proof -
        have f: "xscale S = xscale s" "yscale S = yscale s" "zoom_area S = zoom_area s"
          "plot_area S = plot_area s" "font S = font s"
          using that by (simp_all add: agree_def)
        show ?thesis
          using lab z Inr xy unfolding draw_line_def
          by (simp add: p Let_def andthen_def lc_def agree_label_pos[OF that] f stroke_ops_def
              Z_def pre_def mid_def)
      qed
      then show ?thesis by blast
    qed
  qed
qed


lemma emit_nil [simp]: "emit [] s = s"
  by (simp add: emit_def)

lemma draw_lines_shape:
  "\<exists>e ops. \<forall>S. agree S s \<longrightarrow>
      draw_lines tk ls S = (e, emit ops S) \<and>
      draw_lines tk (filter (inside s) ls) S = (e, emit ops S)"
proof (induction ls)
  case Nil
  have "\<forall>S. agree S s \<longrightarrow> draw_lines tk [] S = (None, emit [] S) \<and>
      draw_lines tk (filter (inside s) []) S = (None, emit [] S)"
    by simp
  then show ?case by blast
next
  case (Cons a ls)
  obtain e2 o2 where r: "\<And>S. agree S s \<Longrightarrow> draw_lines tk ls S = (e2, emit o2 S) \<and>
      draw_lines tk (filter (inside s) ls) S = (e2, emit o2 S)"
    using Cons.IH by blast
  obtain e1 o1 where l: "\<And>S. agree S s \<Longrightarrow> draw_line tk a S = (e1, emit o1 S)"
    using draw_line_shape[of s tk a] by blast
  show ?case
  proof (cases "inside s a")
    case False
    have "draw_lines tk (a # ls) S = (e2, emit o2 S) \<and>
      draw_lines tk (filter (inside s) (a # ls)) S = (e2, emit o2 S)" if "agree S s" for S
      using False r[OF that] draw_line_not_inside[of S a tk] agree_inside[OF that, of a]
      by (simp add: andthen_def)
    then show ?thesis by blast
  next
    case True
    show ?thesis
    proof (cases e1)
      case (Some e)
      have "draw_lines tk (a # ls) S = (Some e, emit o1 S) \<and>
        draw_lines tk (filter (inside s) (a # ls)) S = (Some e, emit o1 S)" if "agree S s" for S
        using True l[OF that] Some by (simp add: andthen_def)
      then show ?thesis by blast
    next
      case None
      have "draw_lines tk (a # ls) S = (e2, emit (o1 @ o2) S) \<and>
        draw_lines tk (filter (inside s) (a # ls)) S = (e2, emit (o1 @ o2) S)" if "agree S s" for S
      proof -
        have "agree (emit o1 S) s" using that by simp
        from r[OF this] show ?thesis
          using True l[OF that] None by (simp add: andthen_def)
      qed
      then show ?thesis by blast
    qed
  qed
qed

lemma agree_overlap_step:
  assumes "agree S s"
  shows "overlap_step tk S i st = overlap_step tk s i st"
  unfolding overlap_step_def agree_label_size[OF assms] by (rule refl)

lemma agree_overlap_loop: "agree S s \<Longrightarrow> overlap_loop tk S is st = overlap_loop tk s is st"
  by (induction "is" arbitrary: st) (simp_all add: agree_overlap_step split: sum.splits)

lemma agree_resolve: "agree S s \<Longrightarrow> resolve_overlaps tk S ls = resolve_overlaps tk s ls"
  by (simp add: resolve_overlaps_def agree_overlap_loop)

lemma agree_margin_pass:
  "agree S s \<Longrightarrow> margin_pass tk S mp ms ls m = margin_pass tk s mp ms ls m"
proof (induction ls arbitrary: m)
  case Nil
  then show ?case by simp
next
  case (Cons a ls)
  have f: "zoom_area S = zoom_area s" "plot_area S = plot_area s"
    using Cons.prems by (simp_all add: agree_def)
  show ?case
    unfolding margin_pass.simps f agree_label_size[OF Cons.prems]
      agree_label_pos[OF Cons.prems] Cons.IH[OF Cons.prems]
    by (rule refl)
qed


text \<open>The layout phase on a state whose lines all have a position.\<close>

definition layout_store :: "toolkit \<Rightarrow> plot \<Rightarrow> real list \<Rightarrow> plot" where
  "layout_store tk u m =
     (let stored = store_margin m (margin u); s2 = u\<lparr>margin := fst stored\<rparr>
      in if snd stored then setworldcoordinates tk s2 else s2)"

definition layout_pass :: "toolkit \<Rightarrow> plot \<Rightarrow> gridline list \<Rightarrow> error + (gridline list \<times> real list)" where
  "layout_pass tk u ls =
     margin_pass tk u (4 / xscale u, 4 / yscale u) (1 / scale u, 1 / scale u) ls
       [- 1 * (4 / xscale u) * (1 / scale u), - 1 * (4 / yscale u) * (1 / scale u),
        1 * (4 / xscale u) * (1 / scale u), 1 * (4 / yscale u) * (1 / scale u)]"

lemma setworldcoordinates_lines:
  "setworldcoordinates tk (u\<lparr>lines := L, margin := M\<rparr>) =
   (setworldcoordinates tk (u\<lparr>margin := M\<rparr>))\<lparr>lines := L\<rparr>"
  by (simp add: setworldcoordinates_def emit_def Let_def)

lemma agree_lines [simp]: "agree (u\<lparr>lines := L\<rparr>) u"
  by (simp add: agree_def)

lemma grid_layout_eq:
  assumes "list_all (\<lambda>l. pos l \<noteq> None) l0"
  shows "grid_layout tk (u\<lparr>lines := Some l0\<rparr>) =
     (if xscale u = 0 \<or> yscale u = 0 \<or> scale u = 0 then Inl ZeroDivisionError
      else case layout_pass tk u (sort_key (\<lambda>l. the (pos l)) l0) of
             Inl e \<Rightarrow> Inl e
           | Inr (ls1, m) \<Rightarrow> Inr (ls1, (layout_store tk u m)\<lparr>lines := Some l0\<rparr>))"
proof -
  have n: "\<not> list_ex (\<lambda>l. pos l = None) l0"
    using assms by (simp add: list_all_iff list_ex_iff)
  have m: "margin_pass tk (u\<lparr>lines := Some l0\<rparr>) = margin_pass tk u"
    using agree_margin_pass[of "u\<lparr>lines := Some l0\<rparr>" u tk] by (simp add: fun_eq_iff)
  show ?thesis
    unfolding grid_layout_def m
    by (simp add: n Let_def layout_pass_def layout_store_def setworldcoordinates_lines
        split: sum.splits prod.splits)
qed

lemma layout_store_zoom [simp]: "zoom_area (layout_store tk u m) = zoom_area u"
  by (simp add: layout_store_def Let_def)

lemma layout_store_canvas:
  "\<exists>ops. canvas (layout_store tk u m) = canvas u @ ops"
  by (simp add: layout_store_def Let_def setworldcoordinates_def)

text \<open>
  Claim C7. For lines that all have a position, \<open>draw_grid\<close> on the lines \<open>ls\<close> and
  \<open>draw_grid\<close> on \<open>ls\<close> without the lines outside the zoom rectangle (on their own axis)
  raise the same exception or none, make the same calls on the turtle module and store
  the same margin: a line outside the zoom rectangle is not drawn, its label is not
  written and it adds nothing to the margin.
\<close>

theorem draw_grid_skips_outside:
  assumes "list_all (\<lambda>l. pos l \<noteq> None) ls"
  shows "fst (draw_grid tk (s\<lparr>lines := Some ls\<rparr>)) =
           fst (draw_grid tk (s\<lparr>lines := Some (filter (inside s) ls)\<rparr>)) \<and>
         canvas (snd (draw_grid tk (s\<lparr>lines := Some ls\<rparr>))) =
           canvas (snd (draw_grid tk (s\<lparr>lines := Some (filter (inside s) ls)\<rparr>))) \<and>
         margin (snd (draw_grid tk (s\<lparr>lines := Some ls\<rparr>))) =
           margin (snd (draw_grid tk (s\<lparr>lines := Some (filter (inside s) ls)\<rparr>)))"
proof -
  define u where "u = emit grid_frame s"
  define fl where "fl = filter (inside s) ls"
  define key where "key = (\<lambda>l::gridline. the (pos l))"
  have iu: "inside u = inside s" by (simp add: u_def fun_eq_iff)
  have pf: "list_all (\<lambda>l. pos l \<noteq> None) fl"
    using assms by (simp add: fl_def list_all_iff)
  have e1: "emit grid_frame (s\<lparr>lines := Some ls\<rparr>) = u\<lparr>lines := Some ls\<rparr>"
    and e2: "emit grid_frame (s\<lparr>lines := Some fl\<rparr>) = u\<lparr>lines := Some fl\<rparr>"
    by (simp_all add: u_def emit_def)
  have ps: "list_all (\<lambda>l. pos l \<noteq> None) (sort_key key ls)"
    using assms by (simp add: list_all_iff)
  have sf: "sort_key key fl = filter (inside u) (sort_key key ls)"
    by (simp add: fl_def iu filter_sort)
  have lf: "layout_pass tk u (sort_key key fl) =
      (case layout_pass tk u (sort_key key ls) of
         Inl e \<Rightarrow> Inl e
       | Inr (ls1, m1) \<Rightarrow> Inr (filter (inside u) ls1, m1))"
    unfolding sf layout_pass_def by (rule margin_pass_filter[OF ps])
  have A: "draw_grid tk (s\<lparr>lines := Some ls\<rparr>) =
      (case grid_layout tk (u\<lparr>lines := Some ls\<rparr>) of
        Inl e \<Rightarrow> (Some e, u\<lparr>lines := Some ls\<rparr>)
      | Inr (ls1, s3) \<Rightarrow>
          (case resolve_overlaps tk s3 ls1 of
             Inl e \<Rightarrow> (Some e, s3)
           | Inr ls2 \<Rightarrow> andthen (draw_lines tk ls2 s3) (\<lambda>s4. (None, emit [Update] s4))))"
    by (simp add: draw_grid_def Let_def e1)
  have B: "draw_grid tk (s\<lparr>lines := Some fl\<rparr>) =
      (case grid_layout tk (u\<lparr>lines := Some fl\<rparr>) of
        Inl e \<Rightarrow> (Some e, u\<lparr>lines := Some fl\<rparr>)
      | Inr (ls1, s3) \<Rightarrow>
          (case resolve_overlaps tk s3 ls1 of
             Inl e \<Rightarrow> (Some e, s3)
           | Inr ls2 \<Rightarrow> andthen (draw_lines tk ls2 s3) (\<lambda>s4. (None, emit [Update] s4))))"
    by (simp add: draw_grid_def Let_def e2)
  have "\<exists>e t. draw_grid tk (s\<lparr>lines := Some ls\<rparr>) = (e, t\<lparr>lines := Some ls\<rparr>) \<and>
      draw_grid tk (s\<lparr>lines := Some fl\<rparr>) = (e, t\<lparr>lines := Some fl\<rparr>)"
  proof (cases "xscale u = 0 \<or> yscale u = 0 \<or> scale u = 0")
    case True
    then show ?thesis
      unfolding A B grid_layout_eq[OF assms] grid_layout_eq[OF pf] by auto
  next
    case nz: False
    show ?thesis
    proof (cases "layout_pass tk u (sort_key key ls)")
      case (Inl e)
      then show ?thesis
        unfolding A B grid_layout_eq[OF assms] grid_layout_eq[OF pf] key_def[symmetric] lf
        using nz by auto
    next
      case (Inr r)
      obtain ls1 m where r: "r = (ls1, m)" by (cases r) auto
      define t where "t = layout_store tk u m"
      have un: "list_all (\<lambda>l. inside u l \<or> \<not> truthy (label l)) ls1"
        using Inr r margin_pass_unlabelled[of tk u _ _ "sort_key key ls" _ ls1 m]
        by (simp add: layout_pass_def)
      have gA: "grid_layout tk (u\<lparr>lines := Some ls\<rparr>) = Inr (ls1, t\<lparr>lines := Some ls\<rparr>)"
        unfolding grid_layout_eq[OF assms] key_def[symmetric] using nz Inr r by (simp add: t_def)
      have gB: "grid_layout tk (u\<lparr>lines := Some fl\<rparr>) =
          Inr (filter (inside u) ls1, t\<lparr>lines := Some fl\<rparr>)"
        unfolding grid_layout_eq[OF pf] key_def[symmetric] lf using nz Inr r by (simp add: t_def)
      have rA: "resolve_overlaps tk (t\<lparr>lines := Some ls\<rparr>) ls1 = resolve_overlaps tk t ls1"
        by (rule agree_resolve) simp
      have rB: "resolve_overlaps tk (t\<lparr>lines := Some fl\<rparr>) (filter (inside u) ls1) =
          (case resolve_overlaps tk t ls1 of Inl e \<Rightarrow> Inl e | Inr r \<Rightarrow> Inr (filter (inside u) r))"
        using resolve_filter[OF inside_label_blind un, of tk t]
          agree_resolve[of "t\<lparr>lines := Some fl\<rparr>" t tk "filter (inside u) ls1"]
        by simp
      show ?thesis
      proof (cases "resolve_overlaps tk t ls1")
        case (Inl e)
        then have "draw_grid tk (s\<lparr>lines := Some ls\<rparr>) = (Some e, t\<lparr>lines := Some ls\<rparr>)"
          and "draw_grid tk (s\<lparr>lines := Some fl\<rparr>) = (Some e, t\<lparr>lines := Some fl\<rparr>)"
          unfolding A B gA gB by (simp_all add: rA rB)
        then show ?thesis by blast
      next
        case rr: (Inr ls2)
        have it: "inside t = inside u"
          by (simp add: t_def fun_eq_iff inside_def split: option.splits)
        obtain e ops where d: "\<And>S. agree S t \<Longrightarrow>
            draw_lines tk ls2 S = (e, emit ops S) \<and>
            draw_lines tk (filter (inside t) ls2) S = (e, emit ops S)"
          using draw_lines_shape[of t tk ls2] by blast
        have dA: "draw_lines tk ls2 (t\<lparr>lines := Some ls\<rparr>) = (e, emit ops (t\<lparr>lines := Some ls\<rparr>))"
          using d[of "t\<lparr>lines := Some ls\<rparr>"] by simp
        have dB: "draw_lines tk (filter (inside u) ls2) (t\<lparr>lines := Some fl\<rparr>) =
            (e, emit ops (t\<lparr>lines := Some fl\<rparr>))"
          using d[of "t\<lparr>lines := Some fl\<rparr>"] by (simp add: it)
        have "draw_grid tk (s\<lparr>lines := Some ls\<rparr>) =
            (e, (if e = None then emit (ops @ [Update]) t else emit ops t)\<lparr>lines := Some ls\<rparr>)"
          unfolding A gA by (cases e) (simp_all add: rA rr dA andthen_def emit_def)
        moreover have "draw_grid tk (s\<lparr>lines := Some fl\<rparr>) =
            (e, (if e = None then emit (ops @ [Update]) t else emit ops t)\<lparr>lines := Some fl\<rparr>)"
          unfolding B gB by (cases e) (simp_all add: rB rr dB andthen_def emit_def)
        ultimately show ?thesis by blast
      qed
    qed
  qed
  then obtain e t where "draw_grid tk (s\<lparr>lines := Some ls\<rparr>) = (e, t\<lparr>lines := Some ls\<rparr>)"
    and "draw_grid tk (s\<lparr>lines := Some fl\<rparr>) = (e, t\<lparr>lines := Some fl\<rparr>)"
    by blast
  then show ?thesis by (simp add: fl_def)
qed

text \<open>Claim C7 at a line at 2000, outside the plot area of a new instance.\<close>

theorem draw_grid_skips_outside_witness:
  "fst (draw_grid demo_toolkit (with_lines [vline 64 ''64'', vline 2000 ''2000''])) =
     fst (draw_grid demo_toolkit (with_lines [vline 64 ''64''])) \<and>
   canvas (snd (draw_grid demo_toolkit (with_lines [vline 64 ''64'', vline 2000 ''2000'']))) =
     canvas (snd (draw_grid demo_toolkit (with_lines [vline 64 ''64'']))) \<and>
   margin (snd (draw_grid demo_toolkit (with_lines [vline 64 ''64'', vline 2000 ''2000'']))) =
     margin (snd (draw_grid demo_toolkit (with_lines [vline 64 ''64''])))"
proof -
  have a: "list_all (\<lambda>l. pos l \<noteq> None) [vline 64 ''64'', vline 2000 ''2000'']"
    by (simp add: vline_def)
  have i1: "inside (init 1 1) (vline 64 ''64'')"
    by (simp add: inside_def vline_def init_def hidx_def hbool_def)
  have i2: "\<not> inside (init 1 1) (vline 2000 ''2000'')"
    by (simp add: inside_def vline_def init_def hidx_def hbool_def)
  have f: "filter (inside (init 1 1)) [vline 64 ''64'', vline 2000 ''2000''] = [vline 64 ''64'']"
    using i1 i2 by simp
  show ?thesis
    using draw_grid_skips_outside[OF a, of demo_toolkit "init 1 1"]
    unfolding f with_lines_def by simp
qed

section \<open>The collapse of equal curves\<close>

text \<open>
  Following the specification's words for claim C5: the curves of a call are its
  arguments, or the three curves of a single grouped argument, and drawing every curve
  without the collapse is the draw loop over all of them.
\<close>

definition is_seq :: "pyval \<Rightarrow> bool" where
  "is_seq v = (case v of Num x \<Rightarrow> False | Seq ys \<Rightarrow> True)"

definition curves_of :: "pyval list \<Rightarrow> pyval list" where
  "curves_of gamma =
     (case gamma of
        [Seq g] \<Rightarrow> if length g = 3 \<and> list_all is_seq g then g else gamma
      | _ \<Rightarrow> gamma)"

definition plot_every :: "pyval list \<Rightarrow> string list \<Rightarrow> int \<Rightarrow> real \<Rightarrow> plot \<Rightarrow> outcome" where
  "plot_every gamma colors draw_speed scale_x s =
     draw_curves colors draw_speed scale_x (length (curves_of gamma)) 0 (curves_of gamma)
       (emit plot_setup s)"

text \<open>The colour in which a segment is seen at the end: that of its last drawing.\<close>

definition final_colour ::
  "segment list \<Rightarrow> (pyval \<times> pyval) \<times> (pyval \<times> pyval) \<Rightarrow> string option" where
  "final_colour segs k = map_of (rev (map (\<lambda>(c, f, t). ((f, t), c)) segs)) k"

definition pen0 :: pen where
  "pen0 = (False, ''black'', None)"

definition polylines :: "pen \<Rightarrow> outcome \<Rightarrow> ((pyval \<times> pyval) \<times> (pyval \<times> pyval)) set" where
  "polylines pn r = snd ` set (segments pn (canvas (snd r)))"

definition colours ::
  "pen \<Rightarrow> outcome \<Rightarrow> (pyval \<times> pyval) \<times> (pyval \<times> pyval) \<Rightarrow> string option" where
  "colours pn r = final_colour (segments pn (canvas (snd r)))"

definition equal_curves :: "pyval list \<Rightarrow> bool" where
  "equal_curves g = (2 \<le> length g \<and> list_all (\<lambda>x. x = g ! 0) g)"

definition twice :: pyval where
  "twice = Seq [Num 1, Num 2]"


text \<open>
  Claim C5 as stated fails: for three equal curves and three colours \<open>plot_table\<close> draws
  the segment from (0, 1) to (1, 2) once, in black, while drawing every curve leaves it
  in the last colour, blue.
\<close>

theorem plot_table_collapse_counterexample:
  "colours pen0 (plot_table [twice, twice, twice] [''red'', ''green'', ''blue''] 16 1 (init 1 1))
      ((Num 0, Num 1), (Num 1, Num 2)) = Some ''black'' \<and>
   colours pen0 (plot_every [twice, twice, twice] [''red'', ''green'', ''blue''] 16 1 (init 1 1))
      ((Num 0, Num 1), (Num 1, Num 2)) = Some ''blue''"
  by code_simp


text \<open>
  The calls made for the samples of one curve: none of them sets the colour, and from
  index 0 the first of them moves the pen.
\<close>

definition is_color :: "turtle_op \<Rightarrow> bool" where
  "is_color op = (case op of Color c \<Rightarrow> True | _ \<Rightarrow> False)"

definition starts_moving :: "turtle_op list \<Rightarrow> bool" where
  "starts_moving ops = (case ops of [] \<Rightarrow> True | SetPosition a b # rest \<Rightarrow> True | _ \<Rightarrow> False)"

lemma draw_points_shape:
  "\<exists>e P. (\<forall>S. draw_points ds sx x ys S = (e, emit P S)) \<and> list_all (\<lambda>op. \<not> is_color op) P \<and>
         (x = 0 \<longrightarrow> starts_moving P)"
proof (induction ys arbitrary: x)
  case Nil
  have "(\<forall>S. draw_points ds sx x [] S = (None, emit [] S)) \<and> list_all (\<lambda>op. \<not> is_color op) [] \<and>
         (x = 0 \<longrightarrow> starts_moving [])"
    by (simp add: starts_moving_def emit_def)
  then show ?case by blast
next
  case (Cons y ys)
  show ?case
  proof (cases "x \<noteq> 0 \<and> ds = 0")
    case True
    have "(\<forall>S. draw_points ds sx x (y # ys) S = (Some ZeroDivisionError, emit [] S)) \<and>
         list_all (\<lambda>op. \<not> is_color op) [] \<and> (x = 0 \<longrightarrow> starts_moving [])"
      using True by (simp add: emit_def)
    then show ?thesis by blast
  next
    case False
    define ops where "ops = (if x \<noteq> 0 \<and> int x mod ds = 0 then [Tracer [1]] else []) @
                       [SetPosition (Num (real x * sx)) y] @
                       (if x \<noteq> 0 \<and> int x mod ds = 0 then [Tracer [0]] else []) @
                       (if x = 0 then [ShowTurtle, PenDown] else [])"
    obtain e P where r: "\<And>S. draw_points ds sx (Suc x) ys S = (e, emit P S)"
      and u: "list_all (\<lambda>op. \<not> is_color op) P"
      using Cons.IH[of "Suc x"] by blast
    have step: "draw_points ds sx x (y # ys) S = draw_points ds sx (Suc x) ys (emit ops S)" for S
      using False by (auto simp: Let_def ops_def)
    have "\<forall>S. draw_points ds sx x (y # ys) S = (e, emit (ops @ P) S)"
      by (simp add: step r del: draw_points.simps)
    moreover have "list_all (\<lambda>op. \<not> is_color op) (ops @ P)"
      using u by (simp add: ops_def is_color_def)
    moreover have "x = 0 \<longrightarrow> starts_moving (ops @ P)"
      by (simp add: ops_def starts_moving_def)
    ultimately show ?thesis by blast
  qed
qed

lemma uncoloured_shape:
  "list_all (\<lambda>op. \<not> is_color op) P \<Longrightarrow>
   map snd (segments (d, c, q) P) = map snd (segments (d, c', q) P) \<and>
   (\<forall>seg \<in> set (segments (d, c, q) P). fst seg = c) \<and>
   (\<exists>d' q'. foldl pen_step (d, c, q) P = (d', c, q') \<and> foldl pen_step (d, c', q) P = (d', c', q'))"
proof (induction P arbitrary: d q)
  case Nil
  then show ?case by simp
next
  case (Cons op P)
  then have n: "\<not> is_color op" and r: "list_all (\<lambda>op. \<not> is_color op) P" by simp_all
  obtain d1 q1 where s: "pen_step (d, c, q) op = (d1, c, q1)" "pen_step (d, c', q) op = (d1, c', q1)"
    using n by (cases op) (auto simp: is_color_def)
  have dr: "map snd (drawn (d, c, q) op) = map snd (drawn (d, c', q) op)"
    "\<forall>seg \<in> set (drawn (d, c, q) op). fst seg = c"
    by (cases op; cases q; simp)+
  show ?case
    using Cons.IH[OF r, of d1 q1] s dr by auto
qed

lemma moving_from_anywhere:
  "starts_moving P \<Longrightarrow>
   segments (False, c, q) P = segments (False, c, q') P \<and>
   (P \<noteq> [] \<longrightarrow> foldl pen_step (False, c, q) P = foldl pen_step (False, c, q') P)"
proof (cases P)
  case Nil
  then show ?thesis by simp
next
  case (Cons op rest)
  assume "starts_moving P"
  then obtain a b where "op = SetPosition a b"
    using Cons by (cases op) (simp_all add: starts_moving_def)
  then show ?thesis using Cons by (cases q; cases q') simp_all
qed


text \<open>The calls that choose the colour of curve \<open>i\<close> of \<open>n\<close>, and the colour they lead to.\<close>

definition colour_ops :: "nat \<Rightarrow> string list \<Rightarrow> nat \<Rightarrow> turtle_op list" where
  "colour_ops n colors i =
     (if n = length colors then [Color (colors ! i)]
      else if length colors = 1 then [Color (colors ! 0)] else [])"

definition colour_of :: "nat \<Rightarrow> string list \<Rightarrow> nat \<Rightarrow> string \<Rightarrow> string" where
  "colour_of n colors i c =
     (if n = length colors then colors ! i else if length colors = 1 then colors ! 0 else c)"

definition curve_end :: "turtle_op list" where
  "curve_end = [PenUp, HideTurtle, Update]"

definition shape :: "turtle_op list \<Rightarrow> ((pyval \<times> pyval) \<times> (pyval \<times> pyval)) list" where
  "shape P = map snd (segments (False, [], None) P)"

lemma draw_curves_colour:
  "draw_curves colors ds sx n i (c # cs) S =
     (case c of
        Num v \<Rightarrow> (Some TypeError, emit (colour_ops n colors i) S)
      | Seq ys \<Rightarrow>
          andthen (draw_points ds sx 0 ys (emit (colour_ops n colors i) S))
            (\<lambda>s2. draw_curves colors ds sx n (Suc i) cs (emit curve_end s2)))"
  by (simp add: colour_ops_def curve_end_def Let_def split: pyval.splits)

lemma draw_curves_repeat:
  assumes "\<And>S. draw_points ds sx 0 ys S = (None, emit P S)"
  shows "draw_curves colors ds sx n i (replicate k (Seq ys)) S =
           (None, emit (concat (map (\<lambda>j. colour_ops n colors j @ P @ curve_end) [i..<i + k])) S)"
proof (induction k arbitrary: i S)
  case 0
  then show ?case by simp
next
  case (Suc k)
  have u: "[i..<i + Suc k] = i # [Suc i..<Suc i + k]"
    by (simp add: upt_rec)
  show ?case
    unfolding replicate_Suc draw_curves_colour u
    by (simp add: assms andthen_def Suc.IH del: draw_curves.simps)
qed

lemma draw_curves_repeat_error:
  assumes "\<And>S. draw_points ds sx 0 ys S = (Some e, emit P S)"
  shows "draw_curves colors ds sx n i (replicate (Suc k) (Seq ys)) S =
           (Some e, emit (colour_ops n colors i @ P) S)"
  unfolding replicate_Suc draw_curves_colour
  by (simp add: assms andthen_def del: draw_curves.simps)

lemma draw_curves_repeat_number:
  "draw_curves colors ds sx n i (replicate (Suc k) (Num v)) S =
     (Some TypeError, emit (colour_ops n colors i) S)"
  unfolding replicate_Suc draw_curves_colour by simp

lemma colour_ops_pen:
  "segments (d, c, q) (colour_ops n colors i) = [] \<and>
   foldl pen_step (d, c, q) (colour_ops n colors i) = (d, colour_of n colors i c, q)"
  by (simp add: colour_ops_def colour_of_def)

lemma curve_end_pen:
  "segments (d, c, q) curve_end = [] \<and> foldl pen_step (d, c, q) curve_end = (False, c, q)"
  by (simp add: curve_end_def)

lemma all_fst_map: "(\<forall>seg \<in> set xs. fst seg = c) \<Longrightarrow> xs = map (Pair c) (map snd xs)"
  by (induction xs) auto

lemma curve_segments:
  assumes u: "list_all (\<lambda>op. \<not> is_color op) P" and m: "starts_moving P"
  shows "segments (False, c, q) P = map (Pair c) (shape P)"
proof -
  have "segments (False, c, q) P = segments (False, c, None) P"
    using moving_from_anywhere[OF m] by blast
  moreover have "\<forall>seg \<in> set (segments (False, c, None) P). fst seg = c"
    using uncoloured_shape[OF u, of False c None] by blast
  moreover have "map snd (segments (False, c, None) P) = shape P"
    using uncoloured_shape[OF u, of False c None "[]"] by (simp add: shape_def)
  ultimately show ?thesis using all_fst_map by metis
qed

lemma curve_pen:
  assumes u: "list_all (\<lambda>op. \<not> is_color op) P"
  shows "\<exists>d' q'. foldl pen_step (d, c, q) P = (d', c, q')"
  using uncoloured_shape[OF u, of d c q c] by blast

lemma block_segments:
  assumes u: "list_all (\<lambda>op. \<not> is_color op) P" and m: "starts_moving P"
  shows "segments (False, c, q) (colour_ops n colors i @ P @ curve_end) =
           map (Pair (colour_of n colors i c)) (shape P) \<and>
         (\<exists>q1. foldl pen_step (False, c, q) (colour_ops n colors i @ P @ curve_end) =
                 (False, colour_of n colors i c, q1))"
proof -
  obtain d' q' where p: "foldl pen_step (False, colour_of n colors i c, q) P =
      (d', colour_of n colors i c, q')"
    using curve_pen[OF u] by blast
  show ?thesis
    using curve_segments[OF u m, of "colour_of n colors i c" q] p
    by (simp add: segments_append colour_ops_pen curve_end_pen)
qed

lemma partial_segments:
  assumes u: "list_all (\<lambda>op. \<not> is_color op) P" and m: "starts_moving P"
  shows "segments (False, c, q) (colour_ops n colors i @ P) =
           map (Pair (colour_of n colors i c)) (shape P)"
  using curve_segments[OF u m, of "colour_of n colors i c" q]
  by (simp add: segments_append colour_ops_pen)


lemma blocks_step:
  assumes u: "list_all (\<lambda>op. \<not> is_color op) P" and m: "starts_moving P"
  shows "\<exists>q1. segments (False, c, q)
             (concat (map (\<lambda>j. colour_ops n colors j @ P @ curve_end) [i..<i + Suc k])) =
           map (Pair (colour_of n colors i c)) (shape P) @
           segments (False, colour_of n colors i c, q1)
             (concat (map (\<lambda>j. colour_ops n colors j @ P @ curve_end) [Suc i..<Suc i + k]))"
proof -
  define blk where "blk = colour_ops n colors i @ P @ curve_end"
  define rest where "rest = concat (map (\<lambda>j. colour_ops n colors j @ P @ curve_end) [Suc i..<Suc i + k])"
  have up: "[i..<i + Suc k] = i # [Suc i..<Suc i + k]"
    by (simp add: upt_rec)
  obtain q1 where b: "segments (False, c, q) blk = map (Pair (colour_of n colors i c)) (shape P)"
    and p: "foldl pen_step (False, c, q) blk = (False, colour_of n colors i c, q1)"
    using block_segments[OF u m, of c q n colors i] unfolding blk_def by blast
  have "concat (map (\<lambda>j. colour_ops n colors j @ P @ curve_end) [i..<i + Suc k]) = blk @ rest"
    unfolding up by (simp add: blk_def rest_def)
  then have "segments (False, c, q)
             (concat (map (\<lambda>j. colour_ops n colors j @ P @ curve_end) [i..<i + Suc k])) =
           map (Pair (colour_of n colors i c)) (shape P) @
           segments (False, colour_of n colors i c, q1) rest"
    by (simp only: segments_append b p)
  then show ?thesis unfolding rest_def by blast
qed

lemma blocks_geometry:
  assumes u: "list_all (\<lambda>op. \<not> is_color op) P" and m: "starts_moving P"
  shows "snd ` set (segments (False, c, q)
             (concat (map (\<lambda>j. colour_ops n colors j @ P @ curve_end) [i..<i + k]))) =
         (if k = 0 then {} else set (shape P))"
proof (induction k arbitrary: i c q)
  case 0
  then show ?case by simp
next
  case (Suc k)
  obtain q1 where st: "segments (False, c, q)
             (concat (map (\<lambda>j. colour_ops n colors j @ P @ curve_end) [i..<i + Suc k])) =
           map (Pair (colour_of n colors i c)) (shape P) @
           segments (False, colour_of n colors i c, q1)
             (concat (map (\<lambda>j. colour_ops n colors j @ P @ curve_end) [Suc i..<Suc i + k]))"
    using blocks_step[OF u m] by blast
  have s: "snd ` set (map (Pair (colour_of n colors i c)) (shape P)) = set (shape P)"
    by (simp add: image_comp comp_def)
  show ?case
    unfolding st
    using Suc.IH[where i = "Suc i" and c = "colour_of n colors i c" and q = q1] s
    by (simp add: image_Un del: upt_Suc)
qed

lemma blocks_uniform:
  assumes u: "list_all (\<lambda>op. \<not> is_color op) P" and m: "starts_moving P"
    and d: "n \<noteq> length colors"
  shows "\<forall>seg \<in> set (segments (False, c, q)
             (concat (map (\<lambda>j. colour_ops n colors j @ P @ curve_end) [i..<i + k]))).
           fst seg = colour_of n colors 0 c"
proof (induction k arbitrary: i c q)
  case 0
  then show ?case by simp
next
  case (Suc k)
  have ci: "colour_of n colors i c = colour_of n colors 0 c"
    and cc: "colour_of n colors 0 (colour_of n colors 0 c) = colour_of n colors 0 c"
    using d by (simp_all add: colour_of_def)
  obtain q1 where st: "segments (False, c, q)
             (concat (map (\<lambda>j. colour_ops n colors j @ P @ curve_end) [i..<i + Suc k])) =
           map (Pair (colour_of n colors i c)) (shape P) @
           segments (False, colour_of n colors i c, q1)
             (concat (map (\<lambda>j. colour_ops n colors j @ P @ curve_end) [Suc i..<Suc i + k]))"
    using blocks_step[OF u m] by blast
  show ?case
    unfolding st ci
    using Suc.IH[where i = "Suc i" and c = "colour_of n colors 0 c" and q = q1] cc
    by (auto simp del: upt_Suc)
qed

lemma final_colour_uniform:
  assumes "\<forall>seg \<in> set segs. fst seg = K"
  shows "final_colour segs k = (if k \<in> snd ` set segs then Some K else None)"
proof (cases "k \<in> snd ` set segs")
  case False
  then have "k \<notin> fst ` set (rev (map (\<lambda>(c, f, t). ((f, t), c)) segs))"
    by (auto simp: image_iff split: prod.splits)
  then show ?thesis using False by (simp add: final_colour_def map_of_eq_None_iff)
next
  case True
  then have "k \<in> fst ` set (rev (map (\<lambda>(c, f, t). ((f, t), c)) segs))"
    by (force simp: image_iff split: prod.splits)
  then obtain v where v: "map_of (rev (map (\<lambda>(c, f, t). ((f, t), c)) segs)) k = Some v"
    by (metis map_of_eq_None_iff not_Some_eq)
  then have "(k, v) \<in> set (rev (map (\<lambda>(c, f, t). ((f, t), c)) segs))"
    by (rule map_of_SomeD)
  then have "v = K" using assms by (auto split: prod.splits)
  then show ?thesis using True v by (simp add: final_colour_def)
qed

lemma final_colour_append:
  "final_colour (xs @ ys) k =
     (case final_colour ys k of None \<Rightarrow> final_colour xs k | Some c \<Rightarrow> Some c)"
  by (simp add: final_colour_def map_add_def split: option.splits)

lemma plot_setup_pen:
  "segments pn plot_setup = [] \<and> (\<exists>q. foldl pen_step pn plot_setup = (False, ''black'', q))"
  by (cases pn) (simp add: plot_setup_def)


lemma segments_after_setup:
  "\<exists>q. \<forall>X. segments pn (canvas s @ plot_setup @ X) =
         segments pn (canvas s) @ segments (False, ''black'', q) X"
proof -
  obtain q where "foldl pen_step (foldl pen_step pn (canvas s)) plot_setup = (False, ''black'', q)"
    using plot_setup_pen by blast
  then have "\<forall>X. segments pn (canvas s @ plot_setup @ X) =
         segments pn (canvas s) @ segments (False, ''black'', q) X"
    using plot_setup_pen by (simp add: segments_append)
  then show ?thesis by blast
qed

lemma collapse_equal:
  assumes "list_all (\<lambda>x. x = g ! 0) g" and "2 \<le> length g"
  shows "g = replicate (length g) (g ! 0)" and "collapse g = [g ! 0]"
proof -
  show "g = replicate (length g) (g ! 0)"
    using assms(1) by (intro replicate_eqI) (auto simp: list_all_iff)
  have "take 1 g = [g ! 0]"
    using assms(2) by (cases g) simp_all
  then show "collapse g = [g ! 0]"
    using assms(1) by (simp add: collapse_def)
qed

lemma collapse_other:
  "\<not> (2 \<le> length g \<and> list_all (\<lambda>x. x = g ! 0) g) \<Longrightarrow> collapse g = g"
proof (cases "list_all (\<lambda>x. x = g ! 0) g")
  case True
  assume "\<not> (2 \<le> length g \<and> list_all (\<lambda>x. x = g ! 0) g)"
  then have "length g \<le> 1" using True by simp
  then have "take 1 g = g" by simp
  then show ?thesis by (simp add: collapse_def)
next
  case False
  then show ?thesis by (simp add: collapse_def)
qed

text \<open>What the two drawings of \<open>n\<close> equal curves have in common.\<close>

lemma equal_curves_summary:
  assumes n: "2 \<le> n"
  shows "\<exists>G NE.
      fst (draw_curves colors ds sx 1 0 [c] (emit plot_setup s)) =
        fst (draw_curves colors ds sx n 0 (replicate n c) (emit plot_setup s)) \<and>
      segments pn (canvas (snd (draw_curves colors ds sx 1 0 [c] (emit plot_setup s)))) =
        segments pn (canvas s) @ map (Pair (colour_of 1 colors 0 ''black'')) G \<and>
      segments pn (canvas (snd (draw_curves colors ds sx n 0 (replicate n c) (emit plot_setup s)))) =
        segments pn (canvas s) @ NE \<and>
      snd ` set NE = set G \<and>
      (n \<noteq> length colors \<longrightarrow> (\<forall>seg \<in> set NE. fst seg = colour_of 1 colors 0 ''black''))"
proof -
  obtain k where k: "n = Suc k" using n by (cases n) auto
  have one: "[c] = replicate (Suc 0) c" by simp
  obtain q where q: "\<And>X. segments pn (canvas s @ plot_setup @ X) =
         segments pn (canvas s) @ segments (False, ''black'', q) X"
    using segments_after_setup[of pn s] by blast
  have kk: "n \<noteq> length colors \<Longrightarrow>
      colour_of n colors 0 ''black'' = colour_of 1 colors 0 ''black''"
    by (auto simp: colour_of_def)
  show ?thesis
  proof (cases c)
    case (Num v)
    have a: "draw_curves colors ds sx 1 0 [c] (emit plot_setup s) =
        (Some TypeError, emit (colour_ops 1 colors 0) (emit plot_setup s))"
      using draw_curves_repeat_number[of colors ds sx 1 0 0 v "emit plot_setup s"]
      by (simp add: Num del: draw_curves.simps)
    have b: "draw_curves colors ds sx n 0 (replicate n c) (emit plot_setup s) =
        (Some TypeError, emit (colour_ops n colors 0) (emit plot_setup s))"
      unfolding k Num by (rule draw_curves_repeat_number)
    have "fst (draw_curves colors ds sx 1 0 [c] (emit plot_setup s)) =
        fst (draw_curves colors ds sx n 0 (replicate n c) (emit plot_setup s)) \<and>
      segments pn (canvas (snd (draw_curves colors ds sx 1 0 [c] (emit plot_setup s)))) =
        segments pn (canvas s) @ map (Pair (colour_of 1 colors 0 ''black'')) [] \<and>
      segments pn (canvas (snd (draw_curves colors ds sx n 0 (replicate n c) (emit plot_setup s)))) =
        segments pn (canvas s) @ [] \<and>
      snd ` set [] = set [] \<and>
      (n \<noteq> length colors \<longrightarrow> (\<forall>seg \<in> set []. fst seg = colour_of 1 colors 0 ''black''))"
      unfolding a b by (simp add: q colour_ops_pen del: draw_curves.simps)
    then show ?thesis by blast
  next
    case (Seq ys)
    obtain e P where r: "\<And>S. draw_points ds sx 0 ys S = (e, emit P S)"
      and u: "list_all (\<lambda>op. \<not> is_color op) P" and m: "starts_moving P"
      using draw_points_shape[of ds sx 0 ys] by blast
    show ?thesis
    proof (cases e)
      case None
      define NE where "NE = segments (False, ''black'', q)
          (concat (map (\<lambda>j. colour_ops n colors j @ P @ curve_end) [0..<0 + n]))"
      have a: "draw_curves colors ds sx 1 0 [c] (emit plot_setup s) =
          (None, emit (concat (map (\<lambda>j. colour_ops 1 colors j @ P @ curve_end) [0..<0 + Suc 0]))
              (emit plot_setup s))"
        using draw_curves_repeat[of ds sx ys P colors 1 0 "Suc 0" "emit plot_setup s"] r None
        by (simp add: Seq del: draw_curves.simps)
      have b: "draw_curves colors ds sx n 0 (replicate n c) (emit plot_setup s) =
          (None, emit (concat (map (\<lambda>j. colour_ops n colors j @ P @ curve_end) [0..<0 + n]))
              (emit plot_setup s))"
        unfolding Seq using r None by (intro draw_curves_repeat) simp
      have sa: "segments (False, ''black'', q) (colour_ops (Suc 0) colors 0 @ P @ curve_end) =
          map (Pair (colour_of (Suc 0) colors 0 ''black'')) (shape P)"
        using block_segments[OF u m] by blast
      have g: "snd ` set NE = set (shape P)"
        unfolding NE_def using blocks_geometry[OF u m, of "''black''" q n colors 0 n] k by simp
      have un: "n \<noteq> length colors \<longrightarrow> (\<forall>seg \<in> set NE. fst seg = colour_of 1 colors 0 ''black'')"
        unfolding NE_def using blocks_uniform[OF u m, of n colors "''black''" q 0 n] kk by auto
      have "fst (draw_curves colors ds sx 1 0 [c] (emit plot_setup s)) =
          fst (draw_curves colors ds sx n 0 (replicate n c) (emit plot_setup s)) \<and>
        segments pn (canvas (snd (draw_curves colors ds sx 1 0 [c] (emit plot_setup s)))) =
          segments pn (canvas s) @ map (Pair (colour_of 1 colors 0 ''black'')) (shape P) \<and>
        segments pn (canvas (snd (draw_curves colors ds sx n 0 (replicate n c) (emit plot_setup s)))) =
          segments pn (canvas s) @ NE"
        unfolding a b by (simp add: q sa NE_def del: draw_curves.simps)
      then show ?thesis using g un by blast
    next
      case (Some er)
      define NE where "NE = map (Pair (colour_of n colors 0 ''black'')) (shape P)"
      have a: "draw_curves colors ds sx 1 0 [c] (emit plot_setup s) =
          (Some er, emit (colour_ops 1 colors 0 @ P) (emit plot_setup s))"
        using draw_curves_repeat_error[of ds sx ys er P colors 1 0 0 "emit plot_setup s"] r Some
        by (simp add: Seq del: draw_curves.simps)
      have b: "draw_curves colors ds sx n 0 (replicate n c) (emit plot_setup s) =
          (Some er, emit (colour_ops n colors 0 @ P) (emit plot_setup s))"
        unfolding k Seq using r Some by (intro draw_curves_repeat_error) simp
      have g: "snd ` set NE = set (shape P)"
        by (simp add: NE_def image_comp comp_def)
      have un: "n \<noteq> length colors \<longrightarrow> (\<forall>seg \<in> set NE. fst seg = colour_of 1 colors 0 ''black'')"
        using kk by (auto simp: NE_def)
      have "fst (draw_curves colors ds sx 1 0 [c] (emit plot_setup s)) =
          fst (draw_curves colors ds sx n 0 (replicate n c) (emit plot_setup s)) \<and>
        segments pn (canvas (snd (draw_curves colors ds sx 1 0 [c] (emit plot_setup s)))) =
          segments pn (canvas s) @ map (Pair (colour_of 1 colors 0 ''black'')) (shape P) \<and>
        segments pn (canvas (snd (draw_curves colors ds sx n 0 (replicate n c) (emit plot_setup s)))) =
          segments pn (canvas s) @ NE"
        unfolding a b by (simp add: q partial_segments[OF u m] NE_def del: draw_curves.simps)
      then show ?thesis using g un by blast
    qed
  qed
qed


text \<open>
  Claim C5, as amended. When the unpacking acts as the specification describes, on a
  single grouped argument of three curves, \<open>plot_table\<close> ends as drawing every curve
  does, with the same error if any, and draws the same segments. The segments are in the
  same final colours whenever the number of curves differs from the number of colours;
  when the curves are not all equal the two runs make the very same calls. When two or
  more equal curves meet as many colours, \<open>plot_table\<close> draws them in black.
\<close>

theorem plot_table_collapse:
  assumes "unpack gamma = Inr (curves_of gamma)"
  shows "fst (plot_table gamma colors ds sx s) = fst (plot_every gamma colors ds sx s) \<and>
    polylines pn (plot_table gamma colors ds sx s) = polylines pn (plot_every gamma colors ds sx s) \<and>
    (length (curves_of gamma) \<noteq> length colors \<longrightarrow>
       colours pn (plot_table gamma colors ds sx s) = colours pn (plot_every gamma colors ds sx s)) \<and>
    (\<not> equal_curves (curves_of gamma) \<longrightarrow>
       plot_table gamma colors ds sx s = plot_every gamma colors ds sx s) \<and>
    (equal_curves (curves_of gamma) \<and> length (curves_of gamma) = length colors \<longrightarrow>
       (\<exists>G. segments pn (canvas (snd (plot_table gamma colors ds sx s))) =
            segments pn (canvas s) @ map (Pair ''black'') G))"
proof -
  define g where "g = curves_of gamma"
  define n where "n = length g"
  have pt: "plot_table gamma colors ds sx s =
      draw_curves colors ds sx (length (collapse g)) 0 (collapse g) (emit plot_setup s)"
    by (simp add: plot_table_def assms Let_def g_def)
  have pe: "plot_every gamma colors ds sx s =
      draw_curves colors ds sx (length g) 0 g (emit plot_setup s)"
    by (simp add: plot_every_def g_def)
  show ?thesis
  proof (cases "equal_curves g")
    case False
    then have "collapse g = g"
      using collapse_other[of g] by (simp add: equal_curves_def)
    then have "plot_table gamma colors ds sx s = plot_every gamma colors ds sx s"
      using pt pe by simp
    then show ?thesis
      using False by (simp add: g_def)
  next
    case True
    then have n2: "2 \<le> n" and same: "list_all (\<lambda>x. x = g ! 0) g"
      by (simp_all add: equal_curves_def n_def)
    have rep: "g = replicate n (g ! 0)" and col: "collapse g = [g ! 0]"
      using collapse_equal[OF same] n2 by (simp_all add: n_def)
    have pt1: "plot_table gamma colors ds sx s =
        draw_curves colors ds sx 1 0 [g ! 0] (emit plot_setup s)"
      unfolding pt col by simp
    have pe1: "plot_every gamma colors ds sx s =
        draw_curves colors ds sx n 0 (replicate n (g ! 0)) (emit plot_setup s)"
      using pe rep by (simp add: n_def)
    obtain G NE where e: "fst (plot_table gamma colors ds sx s) = fst (plot_every gamma colors ds sx s)"
      and a: "segments pn (canvas (snd (plot_table gamma colors ds sx s))) =
          segments pn (canvas s) @ map (Pair (colour_of 1 colors 0 ''black'')) G"
      and b: "segments pn (canvas (snd (plot_every gamma colors ds sx s))) =
          segments pn (canvas s) @ NE"
      and ge: "snd ` set NE = set G"
      and un: "n \<noteq> length colors \<longrightarrow> (\<forall>seg \<in> set NE. fst seg = colour_of 1 colors 0 ''black'')"
      unfolding pt1 pe1 using equal_curves_summary[OF n2, of colors ds sx "g ! 0" s pn] by blast
    have p: "polylines pn (plot_table gamma colors ds sx s) =
        polylines pn (plot_every gamma colors ds sx s)"
      unfolding polylines_def a b using ge by (simp add: image_Un image_comp comp_def)
    have c: "colours pn (plot_table gamma colors ds sx s) =
        colours pn (plot_every gamma colors ds sx s)" if d: "n \<noteq> length colors"
    proof (rule ext)
      fix k
      have u1: "\<forall>seg \<in> set (map (Pair (colour_of 1 colors 0 ''black'')) G).
          fst seg = colour_of 1 colors 0 ''black''"
        by simp
      have u2: "\<forall>seg \<in> set NE. fst seg = colour_of 1 colors 0 ''black''"
        using un d by simp
      have s1: "snd ` set (map (Pair (colour_of 1 colors 0 ''black'')) G) = set G"
        by (simp add: image_comp comp_def)
      show "colours pn (plot_table gamma colors ds sx s) k =
          colours pn (plot_every gamma colors ds sx s) k"
        unfolding colours_def a b final_colour_append
          final_colour_uniform[OF u1] final_colour_uniform[OF u2] s1 ge ..
    qed
    have bl: "\<exists>G. segments pn (canvas (snd (plot_table gamma colors ds sx s))) =
        segments pn (canvas s) @ map (Pair ''black'') G" if d: "n = length colors"
    proof -
      have "colour_of 1 colors 0 ''black'' = ''black''"
        using d n2 by (simp add: colour_of_def)
      then show ?thesis using a by auto
    qed
    show ?thesis
      using e p c bl True by (simp add: g_def n_def)
  qed
qed

text \<open>
  The theorem at work: three equal curves and one colour, two different curves, and
  three equal curves with three colours.
\<close>

theorem plot_table_collapse_witness:
  "unpack [Seq [twice, twice, twice]] = Inr (curves_of [Seq [twice, twice, twice]]) \<and>
   length (curves_of [Seq [twice, twice, twice]]) \<noteq> length [''red''] \<and>
   colours pen0 (plot_table [Seq [twice, twice, twice]] [''red''] 16 1 (init 1 1)) =
     colours pen0 (plot_every [Seq [twice, twice, twice]] [''red''] 16 1 (init 1 1)) \<and>
   polylines pen0 (plot_table [Seq [twice, twice, twice]] [''red''] 16 1 (init 1 1)) =
     polylines pen0 (plot_every [Seq [twice, twice, twice]] [''red''] 16 1 (init 1 1)) \<and>
   unpack [twice, Seq [Num 2, Num 1]] = Inr (curves_of [twice, Seq [Num 2, Num 1]]) \<and>
   \<not> equal_curves (curves_of [twice, Seq [Num 2, Num 1]]) \<and>
   plot_table [twice, Seq [Num 2, Num 1]] [''red'', ''green''] 16 1 (init 1 1) =
     plot_every [twice, Seq [Num 2, Num 1]] [''red'', ''green''] 16 1 (init 1 1) \<and>
   unpack [twice, twice] = Inr (curves_of [twice, twice]) \<and>
   equal_curves (curves_of [twice, twice]) \<and>
   length (curves_of [twice, twice]) = length [''red'', ''green''] \<and>
   (\<exists>G. segments pen0 (canvas (snd (plot_table [twice, twice] [''red'', ''green''] 16 1 (init 1 1)))) =
        segments pen0 (canvas (init 1 1)) @ map (Pair ''black'') G)"
proof -
  have h1: "unpack [Seq [twice, twice, twice]] = Inr (curves_of [Seq [twice, twice, twice]])"
    by (simp add: unpack_def curves_of_def twice_def is_seq_def)
  have d1: "length (curves_of [Seq [twice, twice, twice]]) \<noteq> length [''red'']"
    by (simp add: curves_of_def twice_def is_seq_def)
  have h2: "unpack [twice, Seq [Num 2, Num 1]] = Inr (curves_of [twice, Seq [Num 2, Num 1]])"
    by (simp add: unpack_def curves_of_def twice_def)
  have d2: "\<not> equal_curves (curves_of [twice, Seq [Num 2, Num 1]])"
    by (simp add: equal_curves_def curves_of_def twice_def)
  have h3: "unpack [twice, twice] = Inr (curves_of [twice, twice])"
    by (simp add: unpack_def curves_of_def twice_def)
  have d3: "equal_curves (curves_of [twice, twice])"
    "length (curves_of [twice, twice]) = length [''red'', ''green'']"
    by (simp_all add: equal_curves_def curves_of_def twice_def)
  show ?thesis
    using plot_table_collapse[OF h1, of "[''red'']" 16 1 "init 1 1" pen0]
      plot_table_collapse[OF h2, of "[''red'', ''green'']" 16 1 "init 1 1" pen0]
      plot_table_collapse[OF h3, of "[''red'', ''green'']" 16 1 "init 1 1" pen0]
      h1 d1 h2 d2 h3 d3
    by simp
qed

text \<open>
  The hypothesis of the theorem leaves out exactly the calls with a single argument that
  is a number, or a sequence of three entries of which one is a number.
\<close>

lemma unpack_as_specified:
  "unpack gamma = Inr (curves_of gamma) \<longleftrightarrow>
     \<not> (\<exists>v. gamma = [Num v]) \<and>
     \<not> (\<exists>g. gamma = [Seq g] \<and> length g = 3 \<and> \<not> list_all is_seq g)"
proof (cases gamma)
  case Nil
  then show ?thesis by (simp add: unpack_def curves_of_def)
next
  case (Cons a rest)
  note outer = Cons
  show ?thesis
  proof (cases rest)
    case Nil
    show ?thesis
    proof (cases a)
      case (Num v)
      then show ?thesis using outer Nil by (simp add: unpack_def curves_of_def)
    next
      case (Seq g)
      have "g \<noteq> [Seq g]" if "length g = 3"
      proof
        assume "g = [Seq g]"
        then have "length g = length [Seq g]" by (rule arg_cong)
        then show False using that by simp
      qed
      then show ?thesis
        using outer Nil Seq by (auto simp: unpack_def curves_of_def)
    qed
  next
    case (Cons b rest')
    then show ?thesis using outer
      by (simp add: unpack_def curves_of_def split: pyval.splits)
  qed
qed

end
